theory Spec2Isabelle
  imports Complex_Main "HOL-Library.Word"
begin

unbundle bit_operations_syntax

section \<open>E8 lattice coder: root generation (e8_lattice.cu, initE8Roots)\<close>

text \<open>
  The kernel \<^verbatim>\<open>initE8Roots\<close> runs one thread per root slot and writes eight floats per
  slot into the device buffer \<^verbatim>\<open>roots\<close>. The only values it ever stores are the literals
  \<^verbatim>\<open>0.0f\<close>, \<^verbatim>\<open>1.0f\<close>, \<^verbatim>\<open>-1.0f\<close>, \<^verbatim>\<open>0.5f\<close> and \<^verbatim>\<open>-0.5f\<close>, all exactly representable,
  so a stored float is modelled by the rational it denotes. The C \<^verbatim>\<open>int\<close> locals stay far
  below the 32-bit range (\<^verbatim>\<open>tid < 240\<close>), so they are HOL integers.
\<close>

type_synonym roots_buf = "rat list"

text \<open>
  The inner loop \<^verbatim>\<open>for (j = i + 1; j < 8 && remaining >= 4; j++)\<close> with its body
  \<^verbatim>\<open>remaining -= 4; if (remaining < 0) pairIdx = i * 8 + j;\<close>; it returns the updated
  \<^verbatim>\<open>(remaining, pairIdx)\<close>.
\<close>

function pair_inner :: "int \<Rightarrow> int \<Rightarrow> int \<Rightarrow> int \<Rightarrow> int \<times> int" where
  "pair_inner i j remaining pairIdx =
     (if j < 8 \<and> remaining \<ge> 4
      then (let remaining' = remaining - 4;
                pairIdx' = (if remaining' < 0 then i * 8 + j else pairIdx)
            in pair_inner i (j + 1) remaining' pairIdx')
      else (remaining, pairIdx))"
  by pat_completeness auto
termination
  by (relation "measure (\<lambda>(i, j, remaining, pairIdx). nat (8 - j))") auto

declare pair_inner.simps [simp del]

text \<open>The outer loop \<^verbatim>\<open>for (i = 0; i < 8 && pairIdx == 0; i++)\<close>.\<close>

function pair_outer :: "int \<Rightarrow> int \<Rightarrow> int \<Rightarrow> int \<times> int" where
  "pair_outer i remaining pairIdx =
     (if i < 8 \<and> pairIdx = 0
      then (case pair_inner i (i + 1) remaining pairIdx of
              (remaining', pairIdx') \<Rightarrow> pair_outer (i + 1) remaining' pairIdx')
      else (remaining, pairIdx))"
  by pat_completeness auto
termination
  by (relation "measure (\<lambda>(i, remaining, pairIdx). nat (8 - i))") auto

declare pair_outer.simps [simp del]

text \<open>
  The sign pattern of a type-B slot: the loop
  \<^verbatim>\<open>for (b = 0; b < 8; b++) { bit = (maskIdx >> b) & 1; signPattern |= (bit << b); }\<close>.
\<close>

definition sign_pattern :: "nat \<Rightarrow> nat" where
  "sign_pattern maskIdx =
     fold (\<lambda>b signPattern. signPattern OR push_bit b (drop_bit b maskIdx AND 1)) [0..<8] 0"

text \<open>
  One thread of the kernel, as a state transformer on the buffer. Threads with
  \<^verbatim>\<open>tid \<ge> 240\<close> (the launch rounds the grid up to 256 threads) write nothing.
\<close>

definition initE8Roots_thread :: "nat \<Rightarrow> roots_buf \<Rightarrow> roots_buf" where
  "initE8Roots_thread tid roots =
     (if tid < 112 then
        (let pairIdx = snd (pair_outer 0 (int tid) 0);
             roots1 = fold (\<lambda>d r. r[tid * 8 + d := 0]) [0..<8] roots;
             i = nat ((pairIdx div 8) mod 8);
             j = nat (pairIdx mod 8);
             signBits = tid mod 4;
             roots2 = roots1[tid * 8 + i := (if signBits AND 1 \<noteq> 0 then 1 else - 1)]
         in roots2[tid * 8 + j := (if signBits AND 2 \<noteq> 0 then 1 else - 1)])
      else if tid < 240 then
        (let idx = tid - 112;
             maskIdx = idx div 2;
             signPattern = sign_pattern maskIdx
         in fold (\<lambda>d r. r[tid * 8 + d :=
                     (if drop_bit d signPattern AND 1 \<noteq> 0 then - (1 / 2) else 1 / 2)])
              [0..<8] roots)
      else roots)"

text \<open>
  The launch \<^verbatim>\<open>initE8Roots<<<(E8_ROOTS + 255) / 256, 256>>>(d_roots)\<close>: one block of 256
  threads. The hardware fixes no order among them, so the launch takes the order in which
  the threads happen to run as a parameter.
\<close>

definition initE8Roots :: "nat list \<Rightarrow> roots_buf \<Rightarrow> roots_buf" where
  "initE8Roots sched roots = fold initE8Roots_thread sched roots"

text \<open>The root stored at a slot: the eight floats from \<^verbatim>\<open>roots[tid * E8_DIM]\<close> on.\<close>

definition root_at :: "roots_buf \<Rightarrow> nat \<Rightarrow> rat list" where
  "root_at roots tid = take 8 (drop (tid * 8) roots)"

text \<open>
  A launch order for a block of \<open>n\<close> threads: every thread index below \<open>n\<close> runs
  exactly once, in some order.
\<close>

definition launch_order :: "nat \<Rightarrow> nat list \<Rightarrow> bool" where
  "launch_order n sched \<longleftrightarrow> distinct sched \<and> set sched = {0..<n}"


section \<open>LZ77 coder: hash chains, match finder, token encoder\<close>

type_synonym byte = "8 word"

definition WINDOW_SIZE :: int where "WINDOW_SIZE = 32768"
definition MIN_MATCH :: int where "MIN_MATCH = 3"
definition MAX_MATCH :: nat where "MAX_MATCH = 258"
definition HASH_BITS :: nat where "HASH_BITS = 15"
definition HASH_SIZE :: nat where "HASH_SIZE = 2 ^ HASH_BITS"

text \<open>
  \<^verbatim>\<open>hashFunc\<close>: \<^verbatim>\<open>((a << 10) ^ (b << 5) ^ c) & (HASH_SIZE - 1)\<close>. The bytes are promoted to
  32-bit integers before shifting; the result indexes the head table.
\<close>

definition hashFunc :: "byte \<Rightarrow> byte \<Rightarrow> byte \<Rightarrow> nat" where
  "hashFunc a b c =
     unat ((push_bit 10 (ucast a :: 32 word) XOR push_bit 5 (ucast b) XOR ucast c)
             AND (word_of_nat HASH_SIZE - 1))"

text \<open>
  Positions are kept in C \<^verbatim>\<open>int\<close> tables while the loop counters are \<^verbatim>\<open>size_t\<close>:
  storing a counter converts it to a 32-bit two's complement value.
\<close>

definition to_int32 :: "nat \<Rightarrow> int" where
  "to_int32 i = sint (word_of_nat i :: 32 word)"

text \<open>
  \<^verbatim>\<open>idx - pos\<close> with \<^verbatim>\<open>idx\<close> a \<^verbatim>\<open>size_t\<close> and \<^verbatim>\<open>pos\<close> an \<^verbatim>\<open>int\<close>: the subtraction is
  done in 64-bit unsigned arithmetic and wraps around when \<^verbatim>\<open>pos\<close> exceeds \<^verbatim>\<open>idx\<close>.
\<close>

definition size_sub :: "nat \<Rightarrow> int \<Rightarrow> int" where
  "size_sub idx pos = (int idx - pos) mod 2 ^ 64"

text \<open>The 3-byte hash at a position of the input.\<close>

definition hash_at :: "byte list \<Rightarrow> nat \<Rightarrow> nat" where
  "hash_at input i = hashFunc (input ! i) (input ! (i + 1)) (input ! (i + 2))"

text \<open>
  \<^verbatim>\<open>buildHashTable\<close>. The head table \<^verbatim>\<open>hashHead\<close> maps a hash value to a position and
  is modelled as a function; \<^verbatim>\<open>hashPrev\<close> has one entry per input position. The chain
  loop \<^verbatim>\<open>for (i = 0; i + 2 < size; i++)\<close> is run by thread 0 of block 0 alone.
\<close>

function buildHashTable_loop ::
  "byte list \<Rightarrow> nat \<Rightarrow> (nat \<Rightarrow> int) \<Rightarrow> int list \<Rightarrow> (nat \<Rightarrow> int) \<times> int list" where
  "buildHashTable_loop input i hashHead hashPrev =
     (if i + 2 < length input
      then (let h = hash_at input i
            in buildHashTable_loop input (i + 1)
                 (hashHead(h := to_int32 i)) (hashPrev[i := hashHead h]))
      else (hashHead, hashPrev))"
  by pat_completeness auto
termination
  by (relation "measure (\<lambda>(input, i, hashHead, hashPrev). length input - i)") auto

declare buildHashTable_loop.simps [simp del]

text \<open>
  The kernel as launched by \<^verbatim>\<open>lz77Compress\<close>. Before the loop every thread
  \<^verbatim>\<open>idx < HASH_SIZE\<close> stores \<open>-1\<close> in \<^verbatim>\<open>hashHead[idx]\<close> (the host has preset the table
  to \<open>-1\<close> with \<^verbatim>\<open>cudaMemset(d_hashHead, 0xFF, \<dots>)\<close> as well). \<^verbatim>\<open>hashPrev\<close> comes from
  \<^verbatim>\<open>cudaMalloc\<close> and starts with arbitrary contents, the parameter \<open>hashPrev0\<close>;
  entries of positions that are never inserted keep them. \<open>buildHashTable\<close> is the run
  in which all initialising stores precede the chain loop.
\<close>

definition buildHashTable :: "byte list \<Rightarrow> int list \<Rightarrow> (nat \<Rightarrow> int) \<times> int list" where
  "buildHashTable input hashPrev0 = buildHashTable_loop input 0 (\<lambda>h. - 1) hashPrev0"

text \<open>
  \<^verbatim>\<open>__syncthreads()\<close> orders the initialising stores within one block only: the stores
  of the other 127 blocks may land while thread 0 of block 0 is already building chains.
  In the general run \<open>late i h\<close> says that the store of \<open>-1\<close> to \<^verbatim>\<open>hashHead[h]\<close> lands
  just before iteration \<open>i\<close> of the chain loop reads the table (at the exit index: after
  the loop). A store landing between the read and the write of an iteration is
  overwritten by that write or acts like one before the next iteration.
\<close>

function buildHashTable_racy_loop ::
  "byte list \<Rightarrow> (nat \<Rightarrow> nat \<Rightarrow> bool) \<Rightarrow> nat \<Rightarrow> (nat \<Rightarrow> int) \<Rightarrow> int list
     \<Rightarrow> (nat \<Rightarrow> int) \<times> int list" where
  "buildHashTable_racy_loop input late i hashHead hashPrev =
     (if i + 2 < length input
      then (let hashHead0 = (\<lambda>h. if late i h then - 1 else hashHead h);
                h = hash_at input i
            in buildHashTable_racy_loop input late (i + 1)
                 (hashHead0(h := to_int32 i)) (hashPrev[i := hashHead0 h]))
      else ((\<lambda>h. if late i h then - 1 else hashHead h), hashPrev))"
  by pat_completeness auto
termination
  by (relation "measure (\<lambda>(input, late, i, hashHead, hashPrev). length input - i)") auto

declare buildHashTable_racy_loop.simps [simp del]

definition buildHashTable_racy ::
  "byte list \<Rightarrow> (nat \<Rightarrow> nat \<Rightarrow> bool) \<Rightarrow> int list \<Rightarrow> (nat \<Rightarrow> int) \<times> int list" where
  "buildHashTable_racy input late hashPrev0 =
     buildHashTable_racy_loop input late 0 (\<lambda>h. - 1) hashPrev0"

text \<open>
  \<^verbatim>\<open>findMatches\<close>, inner loop:
  \<^verbatim>\<open>while (len < MAX_MATCH && idx + len < size && input[pos + len] == input[idx + len]) len++;\<close>
\<close>

function match_length :: "byte list \<Rightarrow> nat \<Rightarrow> nat \<Rightarrow> nat \<Rightarrow> nat" where
  "match_length input pos idx len =
     (if len < MAX_MATCH \<and> idx + len < length input \<and> input ! (pos + len) = input ! (idx + len)
      then match_length input pos idx (len + 1)
      else len)"
  by pat_completeness auto
termination
  by (relation "measure (\<lambda>(input, pos, idx, len). MAX_MATCH - len)") auto

declare match_length.simps [simp del]

text \<open>
  \<^verbatim>\<open>findMatches\<close>, chain traversal:
  \<^verbatim>\<open>while (pos >= 0 && idx - pos <= WINDOW_SIZE && searchLimit-- > 0)\<close>. The recursion is on
  \<^verbatim>\<open>searchLimit\<close>, which starts at 64; it returns \<^verbatim>\<open>(bestLen, bestOff)\<close>. The offset
  \<^verbatim>\<open>bestOff = idx - pos\<close> is stored in an \<^verbatim>\<open>int\<close>; inside the loop it is at most
  \<^verbatim>\<open>WINDOW_SIZE\<close>, so the conversion keeps its value.
\<close>

fun chain_walk ::
  "byte list \<Rightarrow> int list \<Rightarrow> nat \<Rightarrow> nat \<Rightarrow> int \<Rightarrow> int \<Rightarrow> int \<Rightarrow> int \<times> int" where
  "chain_walk input hashPrev idx 0 pos bestLen bestOff = (bestLen, bestOff)"
| "chain_walk input hashPrev idx (Suc searchLimit) pos bestLen bestOff =
     (if pos \<ge> 0 \<and> size_sub idx pos \<le> WINDOW_SIZE
      then (let len = int (match_length input (nat pos) idx 0)
            in if len \<ge> MIN_MATCH \<and> len > bestLen
               then chain_walk input hashPrev idx searchLimit (hashPrev ! nat pos)
                      len (size_sub idx pos)
               else chain_walk input hashPrev idx searchLimit (hashPrev ! nat pos)
                      bestLen bestOff)
      else (bestLen, bestOff))"

text \<open>
  One thread of \<^verbatim>\<open>findMatches\<close>: the pair \<^verbatim>\<open>(matchOffset[idx], matchLength[idx])\<close> it
  stores. Positions with fewer than three bytes left get the null match.
\<close>

definition findMatches_thread ::
  "byte list \<Rightarrow> (nat \<Rightarrow> int) \<Rightarrow> int list \<Rightarrow> nat \<Rightarrow> int \<times> int" where
  "findMatches_thread input hashHead hashPrev idx =
     (if idx + 2 \<ge> length input then (0, 0)
      else (let h = hash_at input idx;
                (bestLen, bestOff) = chain_walk input hashPrev idx 64 (hashHead h) 0 0
            in (bestOff, bestLen)))"

text \<open>
  The whole grid: thread \<open>idx\<close> writes slot \<open>idx\<close> of both tables and reads only the
  input and the finished hash tables, so the tables are the per-thread results in order.
  Threads with \<^verbatim>\<open>idx >= size\<close> return without writing.
\<close>

definition findMatches ::
  "byte list \<Rightarrow> (nat \<Rightarrow> int) \<Rightarrow> int list \<Rightarrow> int list \<times> int list" where
  "findMatches input hashHead hashPrev =
     (map (\<lambda>idx. fst (findMatches_thread input hashHead hashPrev idx)) [0..<length input],
      map (\<lambda>idx. snd (findMatches_thread input hashHead hashPrev idx)) [0..<length input])"

text \<open>
  \<^verbatim>\<open>encodeTokens\<close>: the single-threaded greedy loop. A match token is
  \<^verbatim>\<open>0x80000000 | ((len - 3) << 16) | off\<close>, a literal is the byte itself. Besides the
  word written to \<^verbatim>\<open>output[outIdx++]\<close>, each iteration of the model records the cursor
  \<^verbatim>\<open>i\<close> at which it ran.
\<close>

definition match_token :: "int \<Rightarrow> int \<Rightarrow> 32 word" where
  "match_token len off = 0x80000000 OR push_bit 16 (word_of_int (len - 3)) OR word_of_int off"

function encodeTokens_loop ::
  "byte list \<Rightarrow> int list \<Rightarrow> int list \<Rightarrow> nat \<Rightarrow> (nat \<times> 32 word) list" where
  "encodeTokens_loop input matchOffset matchLength i =
     (if i < length input
      then (let len = matchLength ! i; off = matchOffset ! i
            in if len \<ge> MIN_MATCH
               then (i, match_token len off)
                      # encodeTokens_loop input matchOffset matchLength (i + nat len)
               else (i, ucast (input ! i))
                      # encodeTokens_loop input matchOffset matchLength (i + 1))
      else [])"
  by pat_completeness auto
termination
  by (relation "measure (\<lambda>(input, matchOffset, matchLength, i). length input - i)")
    (auto simp: MIN_MATCH_def)

declare encodeTokens_loop.simps [simp del]

text \<open>The words written to \<^verbatim>\<open>output\<close>; \<^verbatim>\<open>*outputPos\<close> is their number.\<close>

definition encodeTokens :: "byte list \<Rightarrow> int list \<Rightarrow> int list \<Rightarrow> 32 word list" where
  "encodeTokens input matchOffset matchLength =
     map snd (encodeTokens_loop input matchOffset matchLength 0)"

text \<open>
  How far the cursor moves in the iteration that starts at \<open>i\<close>:
  \<^verbatim>\<open>i += len\<close> for a match, \<^verbatim>\<open>i++\<close> for a literal.
\<close>

definition advance :: "int list \<Rightarrow> nat \<Rightarrow> nat" where
  "advance matchLength i = (if matchLength ! i \<ge> MIN_MATCH then nat (matchLength ! i) else 1)"

text \<open>
  The three kernels in the order \<^verbatim>\<open>lz77Compress\<close> launches them: the token stream of an
  input.
\<close>

definition lz77_tokens :: "byte list \<Rightarrow> int list \<Rightarrow> 32 word list" where
  "lz77_tokens input hashPrev0 =
     (let (hashHead, hashPrev) = buildHashTable input hashPrev0;
          (matchOffset, matchLength) = findMatches input hashHead hashPrev
      in encodeTokens input matchOffset matchLength)"

text \<open>
  Following back-links from a position, as the traversal \<^verbatim>\<open>pos = hashPrev[pos]\<close> does
  while \<^verbatim>\<open>pos >= 0\<close>: the list of values visited, ending with the first negative one
  (or cut off when the fuel runs out).
\<close>

fun back_links :: "int list \<Rightarrow> nat \<Rightarrow> int \<Rightarrow> int list" where
  "back_links hashPrev 0 pos = [pos]"
| "back_links hashPrev (Suc fuel) pos =
     (if pos < 0 then [pos] else pos # back_links hashPrev fuel (hashPrev ! nat pos))"

text \<open>
  Modelled from the spec: the decoder, which the repository does not have (it holds the
  three compress paths only). This is the conceptual decoder of the round-trip law,
  following its wording: a literal is copied; a match copies \<open>length\<close> bytes, one at a time, starting
  \<open>offset\<close> bytes back in the output decoded so far. A match whose offset is 0 or reaches
  before the start of the output cannot be decoded. The token layout is the encoder's:
  bit 31 the match flag, bits 30 to 16 \<open>length - 3\<close>, bits 15 to 0 the offset.
\<close>

fun copy_match :: "byte list \<Rightarrow> nat \<Rightarrow> nat \<Rightarrow> byte list" where
  "copy_match out off 0 = out"
| "copy_match out off (Suc n) = copy_match (out @ [out ! (length out - off)]) off n"

fun decodeTokens :: "32 word list \<Rightarrow> byte list \<Rightarrow> byte list option" where
  "decodeTokens [] out = Some out"
| "decodeTokens (w # ws) out =
     (if bit w 31
      then (let len = unat (drop_bit 16 w AND 0x7FFF) + 3; off = unat (w AND 0xFFFF)
            in if off = 0 \<or> off > length out then None
               else decodeTokens ws (copy_match out off len))
      else decodeTokens ws (out @ [ucast w]))"









text \<open>What the chain loop has established when its counter is \<open>i\<close>: every head is the
  sentinel or an inserted position below \<open>i\<close>, every back-link written so far is the
  sentinel or an earlier position, and the head of a hash is not before any inserted
  position with that hash.\<close>

definition chain_inv :: "byte list \<Rightarrow> nat \<Rightarrow> (nat \<Rightarrow> int) \<Rightarrow> int list \<Rightarrow> bool" where
  "chain_inv input i hashHead hashPrev \<longleftrightarrow>
     length hashPrev = length input
     \<and> (\<forall>h. hashHead h = - 1 \<or>
              (0 \<le> hashHead h \<and> hashHead h < int i \<and> hashHead h + 2 < int (length input)))
     \<and> (\<forall>j<i. hashPrev ! j = - 1 \<or> (0 \<le> hashPrev ! j \<and> hashPrev ! j < int j))
     \<and> (\<forall>j<i. int j \<le> hashHead (hash_at input j))"

text \<open>
  What the chain loop has established in the general run: heads and back-links are the
  sentinel or earlier positions.
\<close>

definition link_inv :: "byte list \<Rightarrow> nat \<Rightarrow> (nat \<Rightarrow> int) \<Rightarrow> int list \<Rightarrow> bool" where
  "link_inv input i hashHead hashPrev \<longleftrightarrow>
     length hashPrev = length input
     \<and> (\<forall>h. hashHead h = - 1 \<or> (0 \<le> hashHead h \<and> hashHead h < int i))
     \<and> (\<forall>j<i. hashPrev ! j = - 1 \<or> (0 \<le> hashPrev ! j \<and> hashPrev ! j < int j))"

text \<open>
  The same loop on an input all of whose 3-byte windows have the hash \<open>h0\<close>, without any
  bound on the input length: the head and the back-links hold the converted predecessor.
\<close>

definition const_inv :: "nat \<Rightarrow> nat \<Rightarrow> nat \<Rightarrow> (nat \<Rightarrow> int) \<Rightarrow> int list \<Rightarrow> bool" where
  "const_inv n h0 i hashHead hashPrev \<longleftrightarrow>
     length hashPrev = n
     \<and> (0 < i \<longrightarrow> hashHead h0 = to_int32 (i - 1))
     \<and> (\<forall>j. 0 < j \<and> j < i \<longrightarrow> hashPrev ! j = to_int32 (j - 1))"

text \<open>The scenario input: the four bytes \<^verbatim>\<open>"ABCD"\<close> repeated 1000 times.\<close>

definition abcd_1000 :: "byte list" where
  "abcd_1000 = concat (replicate 1000 [0x41, 0x42, 0x43, 0x44])"


section \<open>Arithmetic coder: frequency counting, CDF, chunk encoder\<close>

definition ALPHABET_SIZE :: nat where "ALPHABET_SIZE = 256"
definition BLOCK_SIZE :: nat where "BLOCK_SIZE = 256"
definition MAX_RANGE :: "64 word" where "MAX_RANGE = 2 ^ 32 - 1"

subsection \<open>countFrequencies\<close>

text \<open>
  \<^verbatim>\<open>atomicAdd(&mem[a], v)\<close> on a table of \<^verbatim>\<open>unsigned int\<close>: the addition wraps at \<open>2^32\<close>.
\<close>

definition atomicAdd :: "32 word list \<Rightarrow> nat \<Rightarrow> 32 word \<Rightarrow> 32 word list" where
  "atomicAdd mem a v = mem[a := mem ! a + v]"

text \<open>
  The positions one thread visits: \<^verbatim>\<open>for (size_t i = idx; i < size; i += stride)\<close>. With
  \<^verbatim>\<open>stride = 0\<close> and \<^verbatim>\<open>idx < size\<close> the C loop never ends; the kernel model below
  reports that case before it runs the threads, and the loop function stops there.
\<close>

function grid_stride :: "nat \<Rightarrow> nat \<Rightarrow> nat \<Rightarrow> nat list" where
  "grid_stride i stride size' =
     (if i < size' \<and> 0 < stride then i # grid_stride (i + stride) stride size' else [])"
  by pat_completeness auto
termination
  by (relation "measure (\<lambda>(i, stride, size'). size' - i)") auto

declare grid_stride.simps [simp del]

text \<open>One thread's counting loop on the shared table of its block.\<close>

definition count_thread :: "byte list \<Rightarrow> nat \<Rightarrow> nat \<Rightarrow> 32 word list \<Rightarrow> 32 word list" where
  "count_thread input idx stride localFreq =
     fold (\<lambda>i lf. atomicAdd lf (unat (input ! i)) 1)
       (grid_stride idx stride (length input)) localFreq"

text \<open>
  The shared table of block \<open>b\<close> at the second barrier. \<^verbatim>\<open>blockIdx.x * blockDim.x +
  threadIdx.x\<close> and \<^verbatim>\<open>blockDim.x * gridDim.x\<close> are computed in \<^verbatim>\<open>unsigned int\<close> and wrap
  at \<open>2^32\<close> before they are widened to \<^verbatim>\<open>size_t\<close>. The increments of different threads
  commute; they are applied thread by thread.
\<close>

definition count_block :: "byte list \<Rightarrow> nat \<Rightarrow> nat \<Rightarrow> nat \<Rightarrow> 32 word list" where
  "count_block input gridDim blockDim b =
     (let stride = (blockDim * gridDim) mod 2 ^ 32
      in fold (\<lambda>t lf. count_thread input ((b * blockDim + t) mod 2 ^ 32) stride lf)
           [0..<blockDim] (replicate ALPHABET_SIZE 0))"

text \<open>
  The merge of one shared entry into the global table:
  \<^verbatim>\<open>if (localFreq[i] > 0) atomicAdd(&globalFreq[i], localFreq[i]);\<close>
\<close>

definition merge_entry :: "32 word list \<Rightarrow> nat \<Rightarrow> 32 word list \<Rightarrow> 32 word list" where
  "merge_entry localFreq i globalFreq =
     (if localFreq ! i > 0 then atomicAdd globalFreq i (localFreq ! i) else globalFreq)"

text \<open>
  The kernel on a grid of \<open>gridDim\<close> blocks of \<open>blockDim\<close> threads. The merges of all
  blocks reach the global table in an order the hardware chooses: the parameter \<open>merges\<close>
  lists the pairs (block, symbol) in that order. The result is \<open>None\<close> when a thread never
  leaves its counting loop.
\<close>

definition countFrequencies ::
  "byte list \<Rightarrow> nat \<Rightarrow> nat \<Rightarrow> (nat \<times> nat) list \<Rightarrow> 32 word list \<Rightarrow> 32 word list option" where
  "countFrequencies input gridDim blockDim merges globalFreq =
     (if (blockDim * gridDim) mod 2 ^ 32 = 0 \<and> 0 < gridDim \<and> 0 < blockDim \<and> 0 < length input
      then None
      else Some (fold (\<lambda>(b, i) g. merge_entry (count_block input gridDim blockDim b) i g)
                   merges globalFreq))"

text \<open>
  A merge order for a grid: every pair of a block and a symbol exactly once.
\<close>

definition merge_order :: "nat \<Rightarrow> (nat \<times> nat) list \<Rightarrow> bool" where
  "merge_order gridDim merges \<longleftrightarrow>
     distinct merges \<and> set merges = {0..<gridDim} \<times> {0..<ALPHABET_SIZE}"

text \<open>
  The counting stage as \<^verbatim>\<open>arithmeticCompress\<close> runs it: the global table is zeroed with
  \<^verbatim>\<open>cudaMemset\<close>, the grid has \<^verbatim>\<open>int freqBlocks = (inputSize + BLOCK_SIZE - 1) /
  BLOCK_SIZE\<close> blocks of \<^verbatim>\<open>BLOCK_SIZE\<close> threads. A launch with no block (or a negative
  count) is rejected by the runtime and leaves the zeroed table.
\<close>

definition freqBlocks :: "byte list \<Rightarrow> int" where
  "freqBlocks input = to_int32 ((length input + BLOCK_SIZE - 1) div BLOCK_SIZE)"

definition count_stage :: "byte list \<Rightarrow> (nat \<times> nat) list \<Rightarrow> 32 word list option" where
  "count_stage input merges =
     (if freqBlocks input \<le> 0 then Some (replicate ALPHABET_SIZE 0)
      else countFrequencies input (nat (freqBlocks input)) BLOCK_SIZE merges
             (replicate ALPHABET_SIZE 0))"

subsection \<open>buildCDF\<close>

text \<open>
  One round of the scan between two barriers: every thread \<^verbatim>\<open>tid >= offset\<close> reads
  \<^verbatim>\<open>temp[tid - offset]\<close>, all threads wait, then each adds what it read to
  \<^verbatim>\<open>temp[tid]\<close>. The additions are on \<^verbatim>\<open>unsigned int\<close>.
\<close>

definition scan_step :: "nat \<Rightarrow> 32 word list \<Rightarrow> 32 word list" where
  "scan_step offset temp =
     map (\<lambda>tid. if tid \<ge> offset \<and> tid < ALPHABET_SIZE
                then temp ! tid + temp ! (tid - offset) else temp ! tid)
       [0..<ALPHABET_SIZE]"

text \<open>
  The loop \<^verbatim>\<open>for (offset = 1; offset < ALPHABET_SIZE; offset *= 2)\<close>. It starts at 1, so
  the offset is never 0.
\<close>

function scan_loop :: "nat \<Rightarrow> 32 word list \<Rightarrow> 32 word list" where
  "scan_loop offset temp =
     (if 0 < offset \<and> offset < ALPHABET_SIZE
      then scan_loop (offset * 2) (scan_step offset temp) else temp)"
  by pat_completeness auto
termination
  by (relation "measure (\<lambda>(offset, temp). ALPHABET_SIZE - offset)") auto

declare scan_loop.simps [simp del]

text \<open>
  The kernel, launched as one block of 256 threads: load, scan, then
  \<^verbatim>\<open>cdf[tid] = (tid == 0) ? 0 : temp[tid - 1]\<close>.
\<close>

definition buildCDF :: "32 word list \<Rightarrow> 32 word list" where
  "buildCDF freq =
     (let temp = scan_loop 1 (map (\<lambda>tid. freq ! tid) [0..<ALPHABET_SIZE])
      in map (\<lambda>tid. if tid = 0 then 0 else temp ! (tid - 1)) [0..<ALPHABET_SIZE])"

text \<open>
  What the scan has reached when the offset is \<open>w\<close>: entry \<open>tid\<close> holds the sum of the
  (at most) \<open>w\<close> frequencies ending at \<open>tid\<close>.
\<close>

definition window_sums :: "32 word list \<Rightarrow> nat \<Rightarrow> 32 word list \<Rightarrow> bool" where
  "window_sums freq w temp \<longleftrightarrow>
     length temp = ALPHABET_SIZE
     \<and> (\<forall>tid<ALPHABET_SIZE. temp ! tid = (\<Sum>t = Suc tid - w..<Suc tid. freq ! t))"

text \<open>
  The \<^verbatim>\<open>unsigned int total\<close> that \<^verbatim>\<open>arithmeticCompress\<close> passes to \<^verbatim>\<open>buildCDF\<close> and
  \<^verbatim>\<open>encodeBlocks\<close>: the \<^verbatim>\<open>size_t inputSize\<close>, converted.
\<close>

definition total_of :: "byte list \<Rightarrow> 32 word" where
  "total_of input = word_of_nat (length input)"

subsection \<open>encodeBlocks\<close>

datatype fault = OutOfBounds nat | DivisionByZero | Diverges

record enc_state =
  low :: "64 word"
  range' :: "64 word"
  outputWord :: "32 word"
  bitsInWord :: nat
  outputIdx :: nat
  written :: "(nat \<times> 32 word) list"

text \<open>
  One round of the renormalisation loop, for the block whose output area starts at
  \<open>base\<close>: shift a byte of \<^verbatim>\<open>low\<close> into the output word, store the word when it holds 32
  bits, shift \<^verbatim>\<open>low\<close> and \<^verbatim>\<open>range\<close>.
\<close>

definition renorm_step :: "nat \<Rightarrow> enc_state \<Rightarrow> enc_state" where
  "renorm_step base s =
     (let w = ucast (ucast (push_bit 8 (outputWord s)) OR (drop_bit 24 (low s) AND 0xFF) :: 64 word)
                :: 32 word;
          bits = bitsInWord s + 8;
          s1 = (if bits \<ge> 32
                then s\<lparr>written := written s @ [(base + outputIdx s, w)],
                       outputIdx := outputIdx s + 1, outputWord := 0, bitsInWord := 0\<rparr>
                else s\<lparr>outputWord := w, bitsInWord := bits\<rparr>)
      in s1\<lparr>low := push_bit 8 (low s), range' := push_bit 8 (range' s)\<rparr>)"

text \<open>
  \<^verbatim>\<open>while (range < (1ULL << 24))\<close>. A range of 0 stays 0 under the shift and the C loop
  never ends: the model returns \<open>None\<close>. Any other range reaches \<open>2^24\<close>.
\<close>

function renormalize :: "nat \<Rightarrow> enc_state \<Rightarrow> enc_state option" where
  "renormalize base s =
     (if range' s = 0 then None
      else if range' s < 2 ^ 24 then renormalize base (renorm_step base s)
      else Some s)"
  by pat_completeness auto
termination
proof (relation "measure (\<lambda>(base, s). 2 ^ 24 - unat (range' s))")
  show "wf (measure (\<lambda>(base, s). 2 ^ 24 - unat (range' s)))" by simp
next
  fix base :: nat and s :: enc_state
  assume nz: "range' s \<noteq> 0" and lt: "range' s < 2 ^ 24"
  have u: "unat (range' s) < 2 ^ 24"
    using lt by (simp add: word_less_nat_alt)
  have p: "0 < unat (range' s)"
    using nz by (simp add: unat_gt_0)
  have "unat (range' s * 256) = (unat (range' s) * unat (256 :: 64 word)) mod 2 ^ 64"
    by (simp add: unat_word_ariths)
  also have "\<dots> = unat (range' s) * 256"
    using u by simp
  finally have "unat (push_bit 8 (range' s)) = unat (range' s) * 256"
    by (simp add: push_bit_eq_mult)
  then have "unat (range' (renorm_step base s)) = unat (range' s) * 256"
    by (simp add: renorm_step_def Let_def)
  then show "((base, renorm_step base s), (base, s)) \<in> measure (\<lambda>(base, s). 2 ^ 24 - unat (range' s))"
    using u p by simp
qed

declare renormalize.simps [simp del]

text \<open>
  The body of the symbol loop at index \<open>i\<close>. Reading \<^verbatim>\<open>input[i]\<close> past the end of the
  buffer is the fault \<open>OutOfBounds i\<close>; dividing by a zero \<^verbatim>\<open>total\<close> is a fault as well.
\<close>

definition encode_symbol ::
  "byte list \<Rightarrow> 32 word list \<Rightarrow> 32 word \<Rightarrow> nat \<Rightarrow> nat \<Rightarrow> enc_state \<Rightarrow> fault + enc_state" where
  "encode_symbol input cdf total' base i s =
     (if i \<ge> length input then Inl (OutOfBounds i)
      else (let symbol = input ! i;
                symLow = cdf ! unat symbol;
                symHigh = (if symbol < 255 then cdf ! (unat symbol + 1) else total');
                symRange = symHigh - symLow
            in if total' = 0 then Inl DivisionByZero
               else (case renormalize base
                            (s\<lparr>low := low s + (range' s * ucast symLow) div ucast total',
                               range' := (range' s * ucast symRange) div ucast total'\<rparr>) of
                       None \<Rightarrow> Inl Diverges
                     | Some s' \<Rightarrow> Inr s')))"

text \<open>\<^verbatim>\<open>for (size_t i = start; i < end; i++)\<close>, stopping at the first fault.\<close>

fun encode_loop ::
  "byte list \<Rightarrow> 32 word list \<Rightarrow> 32 word \<Rightarrow> nat \<Rightarrow> nat list \<Rightarrow> enc_state \<Rightarrow> fault + enc_state" where
  "encode_loop input cdf total' base [] s = Inr s"
| "encode_loop input cdf total' base (i # is) s =
     (case encode_symbol input cdf total' base i s of
        Inl f \<Rightarrow> Inl f
      | Inr s' \<Rightarrow> encode_loop input cdf total' base is s')"

text \<open>
  The bounds of the chunk of block \<open>blockId\<close>:
  \<^verbatim>\<open>start = blockId * chunkSize; end = min(start + chunkSize, numChunks * chunkSize)\<close>.
\<close>

definition chunk_start :: "nat \<Rightarrow> nat \<Rightarrow> nat" where
  "chunk_start blockId chunkSize = blockId * chunkSize"

definition chunk_end :: "nat \<Rightarrow> nat \<Rightarrow> nat \<Rightarrow> nat" where
  "chunk_end blockId chunkSize numChunks =
     min (chunk_start blockId chunkSize + chunkSize) (numChunks * chunkSize)"

text \<open>
  Thread 0 of one block of \<^verbatim>\<open>encodeBlocks\<close>: the words it writes to \<^verbatim>\<open>output\<close> (with
  their indices) and the value it stores in \<^verbatim>\<open>outputLengths[blockId]\<close>, or the fault that
  stops it. A block with \<^verbatim>\<open>blockId >= numChunks\<close> returns at once.
\<close>

definition encodeBlocks_block ::
  "byte list \<Rightarrow> 32 word list \<Rightarrow> 32 word \<Rightarrow> nat \<Rightarrow> nat \<Rightarrow> nat
     \<Rightarrow> fault + ((nat \<times> 32 word) list \<times> 32 word option)" where
  "encodeBlocks_block input cdf total' chunkSize numChunks blockId =
     (if blockId \<ge> numChunks then Inr ([], None)
      else (let base = blockId * (chunkSize div 4 + 64);
                s0 = \<lparr>low = 0, range' = MAX_RANGE, outputWord = 0, bitsInWord = 0,
                      outputIdx = 0, written = []\<rparr>
            in case encode_loop input cdf total' base
                      [chunk_start blockId chunkSize ..< chunk_end blockId chunkSize numChunks] s0 of
                 Inl f \<Rightarrow> Inl f
               | Inr s \<Rightarrow>
                   (let s' = (if bitsInWord s > 0
                              then s\<lparr>written := written s @
                                       [(base + outputIdx s,
                                         push_bit (32 - bitsInWord s) (outputWord s))],
                                     outputIdx := outputIdx s + 1\<rparr>
                              else s)
                    in Inr (written s', Some (word_of_nat (outputIdx s' * 4))))))"

text \<open>
  The launch in \<^verbatim>\<open>arithmeticCompress\<close>: chunks of 4096 bytes,
  \<^verbatim>\<open>numChunks = (inputSize + chunkSize - 1) / chunkSize\<close> blocks.
\<close>

definition chunkSize :: nat where "chunkSize = 4096"

definition numChunks :: "byte list \<Rightarrow> nat" where
  "numChunks input = (length input + chunkSize - 1) div chunkSize"

definition encodeBlocks ::
  "byte list \<Rightarrow> 32 word list \<Rightarrow> nat \<Rightarrow> fault + ((nat \<times> 32 word) list \<times> 32 word option)" where
  "encodeBlocks input cdf blockId =
     encodeBlocks_block input cdf (total_of input) chunkSize (numChunks input) blockId"


section \<open>Codec drivers: copying the result to the caller's buffer\<close>

text \<open>
  What a compress call does to the caller's memory: the bytes it writes into
  \<^verbatim>\<open>h_output\<close>, each with its index, and the value it leaves in \<^verbatim>\<open>*outputSize\<close>. On
  entry \<^verbatim>\<open>*outputSize\<close> holds the capacity of \<^verbatim>\<open>h_output\<close>. Sizes are \<^verbatim>\<open>size_t\<close>
  values; a buffer in memory is far shorter than \<open>2^64\<close> bytes, so they are natural
  numbers. Device buffers are read by offset.
\<close>

record host_result =
  writes :: "(nat \<times> byte) list"
  outputSize :: nat
  compressedSize :: nat

text \<open>\<^verbatim>\<open>memcpy(dst + off, src, n)\<close>: the \<open>n\<close> byte stores it performs.\<close>

definition memcpy :: "nat \<Rightarrow> (nat \<Rightarrow> byte) \<Rightarrow> nat \<Rightarrow> (nat \<times> byte) list" where
  "memcpy off src n = map (\<lambda>k. (off + k, src k)) [0..<n]"

text \<open>
  \<^verbatim>\<open>lz77Compress\<close> after the kernels: \<^verbatim>\<open>numTokens\<close> is the \<^verbatim>\<open>unsigned int\<close> read back
  from \<^verbatim>\<open>d_outputPos\<close>,
  \<^verbatim>\<open>compressedBytes = numTokens * sizeof(unsigned int)\<close>, and the copy happens only if
  \<^verbatim>\<open>compressedBytes <= *outputSize\<close>.
\<close>

definition lz77Compress_output :: "32 word \<Rightarrow> (nat \<Rightarrow> byte) \<Rightarrow> nat \<Rightarrow> host_result" where
  "lz77Compress_output numTokens d_output capacity =
     (let compressedBytes = unat numTokens * 4
      in \<lparr>writes = (if compressedBytes \<le> capacity then memcpy 0 d_output compressedBytes else []),
          outputSize = compressedBytes,
          compressedSize = compressedBytes\<rparr>)"

text \<open>
  \<^verbatim>\<open>arithmeticCompress\<close> after the kernels: \<^verbatim>\<open>totalOutput\<close> is the sum of the
  \<^verbatim>\<open>unsigned int\<close> chunk lengths, accumulated in a \<^verbatim>\<open>size_t\<close>; the copy happens only if
  \<^verbatim>\<open>totalOutput > 0 && totalOutput <= *outputSize\<close>, and both branches store
  \<^verbatim>\<open>totalOutput\<close> in \<^verbatim>\<open>*outputSize\<close>.
\<close>

definition arithmeticCompress_output ::
  "32 word list \<Rightarrow> (nat \<Rightarrow> byte) \<Rightarrow> nat \<Rightarrow> host_result" where
  "arithmeticCompress_output h_outputLengths d_output capacity =
     (let totalOutput = fold (\<lambda>l acc. acc + unat l) h_outputLengths 0
      in \<lparr>writes = (if totalOutput > 0 \<and> totalOutput \<le> capacity
                    then memcpy 0 d_output totalOutput else []),
          outputSize = totalOutput,
          compressedSize = totalOutput\<rparr>)"

text \<open>
  \<^verbatim>\<open>e8LatticeCompress\<close>: the input is padded to a multiple of \<^verbatim>\<open>BLOCK_BYTES = 64\<close>, and
  \<^verbatim>\<open>outputBytes = sizeof(size_t) + numBlocks + numBlocks * E8_DIM * sizeof(unsigned
  short)\<close>, with \<^verbatim>\<open>sizeof(size_t) = 8\<close> and \<^verbatim>\<open>sizeof(unsigned short) = 2\<close> on the 64-bit
  host. If that fits, the call stores the eight bytes of \<^verbatim>\<open>inputSize\<close> (least
  significant first), then one root index per block, then the residuals.
\<close>

definition BLOCK_BYTES :: nat where "BLOCK_BYTES = 64"
definition E8_DIM :: nat where "E8_DIM = 8"

definition e8_numBlocks :: "nat \<Rightarrow> nat" where
  "e8_numBlocks inputSize =
     (((inputSize + BLOCK_BYTES - 1) div BLOCK_BYTES) * BLOCK_BYTES) div BLOCK_BYTES"

definition e8_outputBytes :: "nat \<Rightarrow> nat" where
  "e8_outputBytes inputSize =
     8 + e8_numBlocks inputSize + e8_numBlocks inputSize * E8_DIM * 2"

definition size_t_bytes :: "nat \<Rightarrow> nat \<Rightarrow> byte" where
  "size_t_bytes v k = word_of_nat (v div 256 ^ k)"

definition e8LatticeCompress_output ::
  "nat \<Rightarrow> (nat \<Rightarrow> byte) \<Rightarrow> (nat \<Rightarrow> byte) \<Rightarrow> nat \<Rightarrow> host_result" where
  "e8LatticeCompress_output inputSize d_rootIndices d_encodedResiduals capacity =
     (let numBlocks = e8_numBlocks inputSize;
          outputBytes = e8_outputBytes inputSize
      in \<lparr>writes = (if outputBytes \<le> capacity
                    then memcpy 0 (size_t_bytes inputSize) 8
                         @ memcpy 8 d_rootIndices numBlocks
                         @ memcpy (8 + numBlocks) d_encodedResiduals (numBlocks * E8_DIM * 2)
                    else []),
          outputSize = outputBytes,
          compressedSize = outputBytes\<rparr>)"

text \<open>No store of a call lands at or past the capacity of the destination.\<close>

definition within_capacity :: "host_result \<Rightarrow> nat \<Rightarrow> bool" where
  "within_capacity r capacity \<longleftrightarrow> list_all (\<lambda>w. fst w < capacity) (writes r)"


section \<open>Properties of the root generation\<close>

lemma fold_update_length:
  "length (fold (\<lambda>d r. r[b + d := v d]) [0..<n] r) = length r"
  by (induction n) simp_all

lemma fold_update_nth:
  "(fold (\<lambda>d r. r[b + d := v d]) [0..<n] r) ! k =
     (if b \<le> k \<and> k < b + n \<and> k < length r then v (k - b) else r ! k)"
proof (induction n)
  case 0
  show ?case by auto
next
  case (Suc n)
  define xs where "xs = fold (\<lambda>d r. r[b + d := v d]) [0..<n] r"
  have len: "length xs = length r"
    by (simp add: xs_def fold_update_length)
  have step: "fold (\<lambda>d r. r[b + d := v d]) [0..<Suc n] r = xs[b + n := v n]"
    by (simp add: xs_def)
  have IH: "xs ! k = (if b \<le> k \<and> k < b + n \<and> k < length r then v (k - b) else r ! k)"
    using Suc by (simp add: xs_def)
  show ?case
  proof (cases "k = b + n")
    case True
    show ?thesis
    proof (cases "k < length r")
      case True
      with \<open>k = b + n\<close> len show ?thesis
        unfolding step by simp
    next
      case False
      with \<open>k = b + n\<close> len IH show ?thesis
        unfolding step by (simp add: list_update_beyond)
    qed
  next
    case False
    then have "xs[b + n := v n] ! k = xs ! k"
      by simp
    with False IH show ?thesis
      unfolding step by auto
  qed
qed

lemma thread_length: "length (initE8Roots_thread tid r) = length r"
  by (simp add: initE8Roots_thread_def Let_def fold_update_length)

lemma thread_nth_other:
  assumes "k div 8 \<noteq> tid"
  shows "initE8Roots_thread tid r ! k = r ! k"
proof -
  have ne: "\<And>d. d < 8 \<Longrightarrow> tid * 8 + d \<noteq> k"
    using assms by auto
  have out: "\<not> (tid * 8 \<le> k \<and> k < tid * 8 + 8)"
    using assms by auto
  have m8: "\<And>x::int. nat (x mod 8) < 8"
    by simp
  have u: "\<And>d x xs. d < 8 \<Longrightarrow> xs[tid * 8 + d := x] ! k = xs ! k"
    using ne by simp
  have f: "\<And>v xs. fold (\<lambda>d r. r[tid * 8 + d := v d]) [0..<8] xs ! k = xs ! k"
    using out by (auto simp: fold_update_nth)
  show ?thesis
    unfolding initE8Roots_thread_def Let_def
    by (simp add: f u m8)
qed

lemma thread_nth_own:
  assumes "tid < 240" "k div 8 = tid" "length r = 1920" "length r' = 1920"
  shows "initE8Roots_thread tid r ! k = initE8Roots_thread tid r' ! k"
proof -
  have inb: "tid * 8 \<le> k" "k < tid * 8 + 8"
    using assms(2) by auto
  have k: "k < 1920" using assms(1,2) by auto
  have m8: "\<And>x::int. nat (x mod 8) < 8"
    by simp
  have b: "\<And>d. d < 8 \<Longrightarrow> tid * 8 + d < 1920" using assms(1) by auto
  have u: "\<And>d x xs. d < 8 \<Longrightarrow> length xs = 1920 \<Longrightarrow>
     xs[tid * 8 + d := x] ! k = (if tid * 8 + d = k then x else xs ! k)"
    using b by (simp add: nth_list_update)
  have f: "\<And>v xs. length xs = 1920 \<Longrightarrow>
     fold (\<lambda>d r. r[tid * 8 + d := v d]) [0..<8] xs ! k = v (k - tid * 8)"
    using inb k by (simp add: fold_update_nth)
  show ?thesis
    unfolding initE8Roots_thread_def Let_def
    using assms(1,3,4)
    by (simp add: f fold_update_length u m8)
qed


lemma initE8Roots_length: "length (initE8Roots sched r) = length r"
  unfolding initE8Roots_def by (induction sched arbitrary: r) (simp_all add: thread_length)

lemma initE8Roots_nth:
  assumes "length r = 1920" "length r' = 1920" "k div 8 \<in> set sched" "k div 8 < 240"
  shows "initE8Roots sched r ! k = initE8Roots_thread (k div 8) r' ! k"
  using assms(1,3) unfolding initE8Roots_def
proof (induction sched arbitrary: r rule: rev_induct)
  case Nil
  then show ?case by simp
next
  case (snoc t sched)
  have len: "length (fold initE8Roots_thread sched r) = 1920"
    using initE8Roots_length [of sched r] snoc.prems(1) by (simp add: initE8Roots_def)
  show ?case
  proof (cases "t = k div 8")
    case True
    then show ?thesis
      using thread_nth_own [OF assms(4) refl len assms(2)] by simp
  next
    case False
    then have "k div 8 \<in> set sched" using snoc.prems(2) by auto
    with snoc.IH [OF snoc.prems(1)] False show ?thesis
      by (simp add: thread_nth_other)
  qed
qed

lemma pair_inner_keeps: "remaining \<ge> 0 \<Longrightarrow> snd (pair_inner i j remaining pairIdx) = pairIdx"
proof (induction i j remaining pairIdx rule: pair_inner.induct)
  case (1 i j remaining pairIdx)
  show ?case
  proof (cases "j < 8 \<and> remaining \<ge> 4")
    case True
    then have "snd (pair_inner i (j + 1) (remaining - 4) pairIdx) = pairIdx"
      using "1.IH" [of "remaining - 4" pairIdx] by simp
    with True show ?thesis
      by (subst pair_inner.simps) (simp add: Let_def)
  next
    case False
    then show ?thesis by (subst pair_inner.simps) auto
  qed
qed

lemma pair_inner_nonneg: "remaining \<ge> 0 \<Longrightarrow> fst (pair_inner i j remaining pairIdx) \<ge> 0"
proof (induction i j remaining pairIdx rule: pair_inner.induct)
  case (1 i j remaining pairIdx)
  show ?case
  proof (cases "j < 8 \<and> remaining \<ge> 4")
    case True
    then have "fst (pair_inner i (j + 1) (remaining - 4) pairIdx) \<ge> 0"
      using "1.IH" [of "remaining - 4" pairIdx] by simp
    with True show ?thesis
      by (subst pair_inner.simps) (simp add: Let_def)
  next
    case False
    then show ?thesis using "1.prems" by (subst pair_inner.simps) auto
  qed
qed

lemma pair_outer_zero_aux:
  "remaining \<ge> 0 \<Longrightarrow> pairIdx = 0 \<Longrightarrow> snd (pair_outer i remaining pairIdx) = 0"
proof (induction i remaining pairIdx rule: pair_outer.induct)
  case (1 i remaining pairIdx)
  show ?case
  proof (cases "i < 8")
    case True
    obtain r p where rp: "pair_inner i (i + 1) remaining pairIdx = (r, p)"
      by (cases "pair_inner i (i + 1) remaining pairIdx")
    have p: "p = 0"
      using pair_inner_keeps [OF "1.prems"(1), of i "i + 1" pairIdx] rp "1.prems"(2) by simp
    have r: "r \<ge> 0"
      using pair_inner_nonneg [OF "1.prems"(1), of i "i + 1" pairIdx] rp by simp
    have "snd (pair_outer (i + 1) r p) = 0"
      using "1.IH" True rp p r "1.prems"(2) by simp
    with True rp "1.prems"(2) show ?thesis
      by (subst pair_outer.simps) simp
  next
    case False
    then show ?thesis using "1.prems"(2) by (subst pair_outer.simps) simp
  qed
qed

lemma pair_outer_zero: "remaining \<ge> 0 \<Longrightarrow> snd (pair_outer i remaining 0) = 0"
  by (rule pair_outer_zero_aux) simp_all

lemma thread_slot_A:
  assumes "tid < 112" "length r = 1920" "d < 8"
  shows "initE8Roots_thread tid r ! (tid * 8 + d) =
           (if d = 0 then (if tid mod 4 AND 2 \<noteq> 0 then 1 else - 1) else 0)"
proof -
  have p: "snd (pair_outer 0 (int tid) 0) = 0"
    by (rule pair_outer_zero) simp
  have k: "tid * 8 + d < 1920" "tid * 8 < 1920" using assms(1,3) by auto
  have f: "\<And>v xs. length xs = 1920 \<Longrightarrow>
     fold (\<lambda>d r. r[tid * 8 + d := v d]) [0..<8] xs ! (tid * 8 + d) = v d"
    using k assms(3) by (simp add: fold_update_nth)
  show ?thesis
    unfolding initE8Roots_thread_def Let_def p
    using assms k by (simp add: f fold_update_length nth_list_update)
qed

lemma thread_slot_B:
  assumes "112 \<le> tid" "tid < 240" "length r = 1920" "d < 8"
  shows "initE8Roots_thread tid r ! (tid * 8 + d) =
           (if drop_bit d (sign_pattern ((tid - 112) div 2)) AND 1 \<noteq> 0
            then - (1 / 2) else 1 / 2)"
proof -
  have k: "tid * 8 + d < 1920" using assms(2,4) by auto
  have f: "\<And>v xs. length xs = 1920 \<Longrightarrow>
     fold (\<lambda>d r. r[tid * 8 + d := v d]) [0..<8] xs ! (tid * 8 + d) = v d"
    using k assms(4) by (simp add: fold_update_nth)
  show ?thesis
    unfolding initE8Roots_thread_def Let_def
    using assms by (simp add: f)
qed

lemma root_at_nth:
  assumes "tid * 8 + 8 \<le> length r"
  shows "root_at r tid = map (\<lambda>d. r ! (tid * 8 + d)) [0..<8]"
proof (rule nth_equalityI)
  show "length (root_at r tid) = length (map (\<lambda>d. r ! (tid * 8 + d)) [0..<8])"
    using assms by (simp add: root_at_def)
next
  fix i assume "i < length (root_at r tid)"
  then have i: "i < 8" by (simp add: root_at_def)
  then show "root_at r tid ! i = map (\<lambda>d. r ! (tid * 8 + d)) [0..<8] ! i"
    using assms by (simp add: root_at_def del: upt_Suc)
qed

lemma root_at_initE8Roots:
  assumes "length r = 1920" "tid < 240" "tid \<in> set sched"
  shows "root_at (initE8Roots sched r) tid =
           map (\<lambda>d. initE8Roots_thread tid (replicate 1920 0) ! (tid * 8 + d)) [0..<8]"
proof -
  have len: "tid * 8 + 8 \<le> length (initE8Roots sched r)"
    using assms(1,2) by (simp add: initE8Roots_length)
  have "\<And>d. d < 8 \<Longrightarrow> initE8Roots sched r ! (tid * 8 + d)
            = initE8Roots_thread tid (replicate 1920 0) ! (tid * 8 + d)"
  proof -
    fix d :: nat assume d: "d < 8"
    then have dv: "(tid * 8 + d) div 8 = tid" by simp
    show "initE8Roots sched r ! (tid * 8 + d)
            = initE8Roots_thread tid (replicate 1920 0) ! (tid * 8 + d)"
      using initE8Roots_nth [of r "replicate 1920 0" "tid * 8 + d" sched] assms dv by simp
  qed
  then show ?thesis
    unfolding root_at_nth [OF len] by (simp del: upt_Suc)
qed

lemma root_at_type_A:
  assumes "length r = 1920" "tid < 112" "tid \<in> set sched"
  shows "root_at (initE8Roots sched r) tid =
           [if tid mod 4 AND 2 \<noteq> 0 then 1 else - 1, 0, 0, 0, 0, 0, 0, 0]"
proof -
  have t: "tid < 240" using assms(2) by simp
  have e: "[0..<8] = [0, 1, 2, 3, 4, 5, 6, 7]" by (simp add: upt_rec)
  have "map (\<lambda>d. initE8Roots_thread tid (replicate 1920 0) ! (tid * 8 + d)) [0..<8]
      = map (\<lambda>d. if d = 0 then (if tid mod 4 AND 2 \<noteq> 0 then 1 else - 1) else 0) [0..<8]"
    by (rule map_cong [OF refl]) (use assms(2) in \<open>simp add: thread_slot_A del: upt_Suc\<close>)
  also have "\<dots> = [if tid mod 4 AND 2 \<noteq> 0 then 1 else - 1, 0, 0, 0, 0, 0, 0, 0]"
    unfolding e by simp
  finally show ?thesis
    unfolding root_at_initE8Roots [OF assms(1) t assms(3)] .
qed

lemma root_at_type_B:
  assumes "length r = 1920" "112 \<le> tid" "tid < 240" "tid \<in> set sched"
  shows "root_at (initE8Roots sched r) tid =
           map (\<lambda>d. if drop_bit d (sign_pattern ((tid - 112) div 2)) AND 1 \<noteq> 0
                    then - (1 / 2) else 1 / 2) [0..<8]"
proof -
  have "map (\<lambda>d. initE8Roots_thread tid (replicate 1920 0) ! (tid * 8 + d)) [0..<8]
      = map (\<lambda>d. if drop_bit d (sign_pattern ((tid - 112) div 2)) AND 1 \<noteq> 0
                    then - (1 / 2) else 1 / 2) [0..<8]"
    by (rule map_cong [OF refl]) (use assms(2,3) in \<open>simp add: thread_slot_B del: upt_Suc\<close>)
  then show ?thesis
    unfolding root_at_initE8Roots [OF assms(1) assms(3) assms(4)] .
qed

lemma sign_pattern_0: "sign_pattern 0 = 0" by code_simp
lemma sign_pattern_1: "sign_pattern (Suc 0) = Suc 0" by code_simp

text \<open>
  Claim C2 (failing on the code). The generated set is not the E8 root system. The pair
  search never assigns \<^verbatim>\<open>pairIdx\<close> (the test \<^verbatim>\<open>remaining < 0\<close> runs only after
  \<^verbatim>\<open>remaining >= 4\<close> held), so every type-A slot receives a single non-zero coordinate:
  slot 0 holds \<open>(-1, 0, \<dots>, 0)\<close> and slot 4 holds the same vector. The type-B sign pattern
  is the mask index itself, without any parity correction, and \<^verbatim>\<open>idx / 2\<close> gives two
  consecutive slots the same mask: slot 114 has exactly one minus sign, and slots 112 and
  113 coincide.
\<close>

theorem initE8Roots_not_root_system:
  "root_at (initE8Roots [0..<256] (replicate 1920 0)) 0 = [- 1, 0, 0, 0, 0, 0, 0, 0]
   \<and> root_at (initE8Roots [0..<256] (replicate 1920 0)) 4
       = root_at (initE8Roots [0..<256] (replicate 1920 0)) 0
   \<and> root_at (initE8Roots [0..<256] (replicate 1920 0)) 114
       = [- (1 / 2), 1 / 2, 1 / 2, 1 / 2, 1 / 2, 1 / 2, 1 / 2, 1 / 2]
   \<and> root_at (initE8Roots [0..<256] (replicate 1920 0)) 113
       = root_at (initE8Roots [0..<256] (replicate 1920 0)) 112"
proof -
  have e: "[0..<8] = [0, 1, 2, 3, 4, 5, 6, 7]" by (simp add: upt_rec)
  have a0: "root_at (initE8Roots [0..<256] (replicate 1920 0)) 0 = [- 1, 0, 0, 0, 0, 0, 0, 0]"
    by (subst root_at_type_A) simp_all
  have a4: "root_at (initE8Roots [0..<256] (replicate 1920 0)) 4 = [- 1, 0, 0, 0, 0, 0, 0, 0]"
    by (subst root_at_type_A) simp_all
  have b114: "root_at (initE8Roots [0..<256] (replicate 1920 0)) 114
       = [- (1 / 2), 1 / 2, 1 / 2, 1 / 2, 1 / 2, 1 / 2, 1 / 2, 1 / 2]"
    by (subst root_at_type_B) (simp_all add: sign_pattern_1 e)
  have b112: "root_at (initE8Roots [0..<256] (replicate 1920 0)) 112
       = [1 / 2, 1 / 2, 1 / 2, 1 / 2, 1 / 2, 1 / 2, 1 / 2, 1 / 2]"
    by (subst root_at_type_B) (simp_all add: sign_pattern_0 e)
  have b113: "root_at (initE8Roots [0..<256] (replicate 1920 0)) 113
       = [1 / 2, 1 / 2, 1 / 2, 1 / 2, 1 / 2, 1 / 2, 1 / 2, 1 / 2]"
    by (subst root_at_type_B) (simp_all add: sign_pattern_0 e)
  show ?thesis using a0 a4 b114 b112 b113 by simp
qed

text \<open>
  Claim C9. Root generation is deterministic: whatever the device buffer held before the
  launch and in whatever order the 256 threads run, the launch leaves the same 240-by-8
  array, and the root at slot \<open>tid\<close> is what thread \<open>tid\<close> alone writes, a function of
  the slot index only. Two independent runs therefore produce equal arrays.
\<close>

theorem initE8Roots_deterministic:
  assumes "length r1 = 1920" and "length r2 = 1920"
    and "launch_order 256 s1" and "launch_order 256 s2"
  shows "initE8Roots s1 r1 = initE8Roots s2 r2
         \<and> (\<forall>tid<240. root_at (initE8Roots s1 r1) tid
                          = root_at (initE8Roots_thread tid r2) tid)"
proof
  show "initE8Roots s1 r1 = initE8Roots s2 r2"
  proof (rule nth_equalityI)
    show "length (initE8Roots s1 r1) = length (initE8Roots s2 r2)"
      using assms(1,2) by (simp add: initE8Roots_length)
  next
    fix k assume "k < length (initE8Roots s1 r1)"
    then have k: "k < 1920" using assms(1) by (simp add: initE8Roots_length)
    then have d: "k div 8 < 240" by simp
    then have m1: "k div 8 \<in> set s1" and m2: "k div 8 \<in> set s2"
      using assms(3,4) by (simp_all add: launch_order_def)
    show "initE8Roots s1 r1 ! k = initE8Roots s2 r2 ! k"
      using initE8Roots_nth [OF assms(1) assms(2) m1 d]
            initE8Roots_nth [OF assms(2) assms(2) m2 d] by simp
  qed
next
  show "\<forall>tid<240. root_at (initE8Roots s1 r1) tid = root_at (initE8Roots_thread tid r2) tid"
  proof (intro allI impI)
    fix tid :: nat assume t: "tid < 240"
    then have m: "tid \<in> set s1" using assms(3) by (simp add: launch_order_def)
    have one: "initE8Roots [tid] r2 = initE8Roots_thread tid r2"
      by (simp add: initE8Roots_def)
    have "root_at (initE8Roots [tid] r2) tid
            = map (\<lambda>d. initE8Roots_thread tid (replicate 1920 0) ! (tid * 8 + d)) [0..<8]"
      by (rule root_at_initE8Roots [OF assms(2) t]) simp
    then show "root_at (initE8Roots s1 r1) tid = root_at (initE8Roots_thread tid r2) tid"
      unfolding one root_at_initE8Roots [OF assms(1) t m] by simp
  qed
qed

theorem initE8Roots_deterministic_witness:
  "initE8Roots [0..<256] (replicate 1920 0) = initE8Roots (rev [0..<256]) (replicate 1920 1)
   \<and> root_at (initE8Roots [0..<256] (replicate 1920 0)) 5
       = root_at (initE8Roots_thread 5 (replicate 1920 1)) 5"
proof -
  have o1: "launch_order 256 [0..<256]" and o2: "launch_order 256 (rev [0..<256])"
    by (simp_all add: launch_order_def)
  have l1: "length (replicate 1920 (0::rat)) = 1920" and l2: "length (replicate 1920 (1::rat)) = 1920"
    by simp_all
  have a: "initE8Roots [0..<256] (replicate 1920 0)
             = initE8Roots (rev [0..<256]) (replicate 1920 1)"
    by (rule initE8Roots_deterministic [OF l1 l2 o1 o2, THEN conjunct1])
  have b: "root_at (initE8Roots [0..<256] (replicate 1920 0)) 5
             = root_at (initE8Roots_thread 5 (replicate 1920 1)) 5"
    by (rule initE8Roots_deterministic [OF l1 l2 o1 o2, THEN conjunct2, rule_format]) simp
  show ?thesis
    by (rule conjI [OF a b])
qed


section \<open>Properties of the LZ77 coder\<close>

subsection \<open>The token loop\<close>


lemma encodeTokens_loop_unfold:
  "i < length input \<Longrightarrow>
     \<exists>w. encodeTokens_loop input matchOffset matchLength i =
       (i, w) # encodeTokens_loop input matchOffset matchLength (i + advance matchLength i)"
  by (subst encodeTokens_loop.simps) (simp add: advance_def Let_def)








subsection \<open>The fields of an emitted token\<close>


















subsection \<open>Hash chains\<close>

lemma to_int32_id: "i < 2 ^ 31 \<Longrightarrow> to_int32 i = int i"
proof -
  assume a: "i < 2 ^ 31"
  have "signed_take_bit 31 (int i) = int i"
    by (rule signed_take_bit_int_eq_self) (use a in simp_all)
  then show ?thesis by (simp add: to_int32_def signed_of_nat)
qed

lemma chain_inv_step:
  assumes "chain_inv input i hashHead hashPrev" "i + 2 < length input" "length input < 2 ^ 31"
  shows "chain_inv input (i + 1) (hashHead(hash_at input i := to_int32 i))
           (hashPrev[i := hashHead (hash_at input i)])"
proof -
  have ti: "to_int32 i = int i"
    using assms(2,3) by (intro to_int32_id) simp
  have len: "length hashPrev = length input"
    and hd: "\<And>h. hashHead h = - 1 \<or>
              (0 \<le> hashHead h \<and> hashHead h < int i \<and> hashHead h + 2 < int (length input))"
    and pv: "\<And>j. j < i \<Longrightarrow> hashPrev ! j = - 1 \<or> (0 \<le> hashPrev ! j \<and> hashPrev ! j < int j)"
    and dom: "\<And>j. j < i \<Longrightarrow> int j \<le> hashHead (hash_at input j)"
    using assms(1) by (auto simp: chain_inv_def)
  have il: "i < length hashPrev" using len assms(2) by simp
  have 1: "\<forall>h. (hashHead(hash_at input i := to_int32 i)) h = - 1 \<or>
              (0 \<le> (hashHead(hash_at input i := to_int32 i)) h \<and>
               (hashHead(hash_at input i := to_int32 i)) h < int (i + 1) \<and>
               (hashHead(hash_at input i := to_int32 i)) h + 2 < int (length input))"
  proof
    fix h
    show "(hashHead(hash_at input i := to_int32 i)) h = - 1 \<or>
              (0 \<le> (hashHead(hash_at input i := to_int32 i)) h \<and>
               (hashHead(hash_at input i := to_int32 i)) h < int (i + 1) \<and>
               (hashHead(hash_at input i := to_int32 i)) h + 2 < int (length input))"
    proof (cases "h = hash_at input i")
      case True
      then show ?thesis using ti assms(2) by simp
    next
      case False
      then show ?thesis using hd [of h] by auto
    qed
  qed
  have 2: "\<forall>j<i + 1. hashPrev[i := hashHead (hash_at input i)] ! j = - 1 \<or>
              (0 \<le> hashPrev[i := hashHead (hash_at input i)] ! j \<and>
               hashPrev[i := hashHead (hash_at input i)] ! j < int j)"
  proof (intro allI impI)
    fix j assume "j < i + 1"
    then consider "j < i" | "j = i" by linarith
    then show "hashPrev[i := hashHead (hash_at input i)] ! j = - 1 \<or>
              (0 \<le> hashPrev[i := hashHead (hash_at input i)] ! j \<and>
               hashPrev[i := hashHead (hash_at input i)] ! j < int j)"
    proof cases
      case 1
      then show ?thesis using pv [of j] by simp
    next
      case 2
      then show ?thesis using hd [of "hash_at input i"] il by auto
    qed
  qed
  have 3: "\<forall>j<i + 1. int j \<le> (hashHead(hash_at input i := to_int32 i)) (hash_at input j)"
  proof (intro allI impI)
    fix j assume "j < i + 1"
    then consider "j < i" | "j = i" by linarith
    then show "int j \<le> (hashHead(hash_at input i := to_int32 i)) (hash_at input j)"
    proof cases
      case 1
      then show ?thesis using dom [of j] ti by (simp add: fun_upd_def)
    next
      case 2
      then show ?thesis using ti by simp
    qed
  qed
  show ?thesis
    unfolding chain_inv_def using len 1 2 3 by simp
qed

lemma chain_inv_loop:
  assumes "chain_inv input i hashHead hashPrev" "length input < 2 ^ 31"
    and "buildHashTable_loop input i hashHead hashPrev = (hashHead', hashPrev')"
  shows "\<exists>i'. i \<le> i' \<and> \<not> i' + 2 < length input \<and> chain_inv input i' hashHead' hashPrev'"
  using assms
proof (induction input i hashHead hashPrev rule: buildHashTable_loop.induct)
  case (1 input i hashHead hashPrev)
  show ?case
  proof (cases "i + 2 < length input")
    case True
    have inv: "chain_inv input (i + 1) (hashHead(hash_at input i := to_int32 i))
           (hashPrev[i := hashHead (hash_at input i)])"
      by (rule chain_inv_step [OF "1.prems"(1) True "1.prems"(2)])
    have run: "buildHashTable_loop input (i + 1) (hashHead(hash_at input i := to_int32 i))
           (hashPrev[i := hashHead (hash_at input i)]) = (hashHead', hashPrev')"
      using "1.prems"(3) True by (subst (asm) buildHashTable_loop.simps) (simp add: Let_def)
    obtain i' where "i + 1 \<le> i'" "\<not> i' + 2 < length input" "chain_inv input i' hashHead' hashPrev'"
      using "1.IH" [OF True refl inv "1.prems"(2) run] by blast
    then show ?thesis by (intro exI [of _ i']) simp
  next
    case False
    then have "hashHead' = hashHead" "hashPrev' = hashPrev"
      using "1.prems"(3) by (subst (asm) buildHashTable_loop.simps, simp)+
    with False "1.prems"(1) show ?thesis by (intro exI [of _ i]) simp
  qed
qed

lemma chain_inv_init: "length hashPrev0 = length input \<Longrightarrow> chain_inv input 0 (\<lambda>h. - 1) hashPrev0"
  by (simp add: chain_inv_def)

lemma buildHashTable_inv:
  assumes "length input < 2 ^ 31" "length hashPrev0 = length input"
    and "buildHashTable input hashPrev0 = (hashHead, hashPrev)"
  shows "length hashPrev = length input"
    and "\<And>j. j + 2 < length input \<Longrightarrow>
           hashPrev ! j = - 1 \<or> (0 \<le> hashPrev ! j \<and> hashPrev ! j < int j)"
    and "\<And>j. j + 2 < length input \<Longrightarrow> int j \<le> hashHead (hash_at input j)"
    and "\<And>h. hashHead h < int (length input)"
proof -
  obtain i' where i': "\<not> i' + 2 < length input" "chain_inv input i' hashHead hashPrev"
    using chain_inv_loop [OF chain_inv_init [OF assms(2)] assms(1)] assms(3)
    unfolding buildHashTable_def by blast
  show "length hashPrev = length input" using i'(2) by (simp add: chain_inv_def)
  show "\<And>j. j + 2 < length input \<Longrightarrow>
           hashPrev ! j = - 1 \<or> (0 \<le> hashPrev ! j \<and> hashPrev ! j < int j)"
  proof -
    fix j assume "j + 2 < length input"
    then have "j < i'" using i'(1) by simp
    then show "hashPrev ! j = - 1 \<or> (0 \<le> hashPrev ! j \<and> hashPrev ! j < int j)"
      using i'(2) by (simp add: chain_inv_def)
  qed
  show "\<And>j. j + 2 < length input \<Longrightarrow> int j \<le> hashHead (hash_at input j)"
  proof -
    fix j assume "j + 2 < length input"
    then have "j < i'" using i'(1) by simp
    then show "int j \<le> hashHead (hash_at input j)"
      using i'(2) by (simp add: chain_inv_def)
  qed
  show "\<And>h. hashHead h < int (length input)"
  proof -
    fix h
    have "hashHead h = - 1 \<or> hashHead h + 2 < int (length input)"
      using i'(2) by (auto simp: chain_inv_def)
    then show "hashHead h < int (length input)"
      by auto
  qed
qed

lemma back_links_neg: "pos < 0 \<Longrightarrow> back_links hashPrev fuel pos = [pos]"
  by (cases fuel) simp_all

lemma back_links_chain:
  assumes links: "\<And>j. j \<le> i \<Longrightarrow> hashPrev ! j = - 1 \<or> (0 \<le> hashPrev ! j \<and> hashPrev ! j < int j)"
    and fuel: "i < fuel"
  shows "last (back_links hashPrev fuel (int i)) = - 1
         \<and> sorted_wrt (>) (back_links hashPrev fuel (int i))
         \<and> hd (back_links hashPrev fuel (int i)) = int i"
  using links fuel
proof (induction i arbitrary: fuel rule: less_induct)
  case (less i)
  obtain f where f: "fuel = Suc f" using less.prems(2) by (cases fuel) simp_all
  let ?p = "hashPrev ! i"
  have unfold: "back_links hashPrev fuel (int i) = int i # back_links hashPrev f ?p"
    by (simp add: f)
  consider "?p = - 1" | "0 \<le> ?p" "?p < int i"
    using less.prems(1) [of i] by auto
  then show ?case
  proof cases
    case 1
    then show ?thesis by (simp add: unfold back_links_neg)
  next
    case 2
    define j where "j = nat ?p"
    have j: "int j = ?p" "j < i" using 2 by (simp_all add: j_def)
    have "j < f" using j(2) less.prems(2) f by simp
    then have IH: "last (back_links hashPrev f (int j)) = - 1
         \<and> sorted_wrt (>) (back_links hashPrev f (int j))
         \<and> hd (back_links hashPrev f (int j)) = int j"
      using less.IH [OF j(2), of f] less.prems(1) j(2) by simp
    have ne: "back_links hashPrev f (int j) \<noteq> []"
      by (cases f) simp_all
    have below: "\<forall>x\<in>set (back_links hashPrev f (int j)). x < int i"
    proof
      fix x assume x: "x \<in> set (back_links hashPrev f (int j))"
      obtain y ys where ys: "back_links hashPrev f (int j) = y # ys"
        using ne by (cases "back_links hashPrev f (int j)") simp_all
      have y: "y = int j" using IH ys by simp
      have "\<forall>z\<in>set ys. z < y" using IH ys by auto
      then have "x \<le> int j" using x ys y by auto
      then show "x < int i" using j(2) by simp
    qed
    show ?thesis
      using IH ne below by (simp add: unfold j(1) [symmetric])
  qed
qed

lemma buildHashTable_racy_loop_plain:
  "buildHashTable_racy_loop input (\<lambda>i h. False) i hashHead hashPrev
     = buildHashTable_loop input i hashHead hashPrev"
proof (induction input i hashHead hashPrev rule: buildHashTable_loop.induct)
  case (1 input i hashHead hashPrev)
  show ?case
  proof (cases "i + 2 < length input")
    case True
    then show ?thesis
      using "1.IH" [OF True refl]
      by (subst buildHashTable_racy_loop.simps, subst buildHashTable_loop.simps)
         (simp add: Let_def fun_upd_def)
  next
    case False
    then show ?thesis
      by (subst buildHashTable_racy_loop.simps, subst buildHashTable_loop.simps) simp
  qed
qed

lemma buildHashTable_racy_plain:
  "buildHashTable_racy input (\<lambda>i h. False) hashPrev0 = buildHashTable input hashPrev0"
  by (simp add: buildHashTable_racy_def buildHashTable_def buildHashTable_racy_loop_plain)

lemma link_inv_reset:
  assumes "link_inv input i hashHead hashPrev"
  shows "link_inv input i (\<lambda>h. if late i h then - 1 else hashHead h) hashPrev"
  using assms by (simp add: link_inv_def)

lemma link_inv_step:
  assumes "link_inv input i hashHead hashPrev" "i + 2 < length input" "length input < 2 ^ 31"
  shows "link_inv input (i + 1) (hashHead(hash_at input i := to_int32 i))
           (hashPrev[i := hashHead (hash_at input i)])"
proof -
  have ti: "to_int32 i = int i"
    using assms(2,3) by (intro to_int32_id) simp
  have len: "length hashPrev = length input"
    and hd: "\<And>h. hashHead h = - 1 \<or> (0 \<le> hashHead h \<and> hashHead h < int i)"
    and pv: "\<And>j. j < i \<Longrightarrow> hashPrev ! j = - 1 \<or> (0 \<le> hashPrev ! j \<and> hashPrev ! j < int j)"
    using assms(1) by (auto simp: link_inv_def)
  have il: "i < length hashPrev" using len assms(2) by simp
  have 1: "\<forall>h. (hashHead(hash_at input i := to_int32 i)) h = - 1 \<or>
              (0 \<le> (hashHead(hash_at input i := to_int32 i)) h \<and>
               (hashHead(hash_at input i := to_int32 i)) h < int (i + 1))"
  proof
    fix h
    show "(hashHead(hash_at input i := to_int32 i)) h = - 1 \<or>
              (0 \<le> (hashHead(hash_at input i := to_int32 i)) h \<and>
               (hashHead(hash_at input i := to_int32 i)) h < int (i + 1))"
    proof (cases "h = hash_at input i")
      case True
      then show ?thesis using ti by simp
    next
      case False
      then show ?thesis using hd [of h] by auto
    qed
  qed
  have 2: "\<forall>j<i + 1. hashPrev[i := hashHead (hash_at input i)] ! j = - 1 \<or>
              (0 \<le> hashPrev[i := hashHead (hash_at input i)] ! j \<and>
               hashPrev[i := hashHead (hash_at input i)] ! j < int j)"
  proof (intro allI impI)
    fix j assume "j < i + 1"
    then consider "j < i" | "j = i" by linarith
    then show "hashPrev[i := hashHead (hash_at input i)] ! j = - 1 \<or>
              (0 \<le> hashPrev[i := hashHead (hash_at input i)] ! j \<and>
               hashPrev[i := hashHead (hash_at input i)] ! j < int j)"
    proof cases
      case 1
      then show ?thesis using pv [of j] by simp
    next
      case 2
      then show ?thesis using hd [of "hash_at input i"] il by auto
    qed
  qed
  show ?thesis
    unfolding link_inv_def using len 1 2 by simp
qed

lemma link_inv_loop:
  assumes "link_inv input i hashHead hashPrev" "length input < 2 ^ 31"
    and "buildHashTable_racy_loop input late i hashHead hashPrev = (hashHead', hashPrev')"
  shows "\<exists>i'. i \<le> i' \<and> \<not> i' + 2 < length input \<and> link_inv input i' hashHead' hashPrev'"
  using assms
proof (induction input late i hashHead hashPrev rule: buildHashTable_racy_loop.induct)
  case (1 input late i hashHead hashPrev)
  let ?hh0 = "\<lambda>h. if late i h then - 1 else hashHead h"
  have r: "link_inv input i ?hh0 hashPrev"
    by (rule link_inv_reset [OF "1.prems"(1)])
  show ?case
  proof (cases "i + 2 < length input")
    case True
    have inv: "link_inv input (i + 1) (?hh0(hash_at input i := to_int32 i))
           (hashPrev[i := ?hh0 (hash_at input i)])"
      by (rule link_inv_step [OF r True "1.prems"(2)])
    have run: "buildHashTable_racy_loop input late (i + 1) (?hh0(hash_at input i := to_int32 i))
           (hashPrev[i := ?hh0 (hash_at input i)]) = (hashHead', hashPrev')"
      using "1.prems"(3) True by (subst (asm) buildHashTable_racy_loop.simps) (simp add: Let_def)
    obtain i' where "i + 1 \<le> i'" "\<not> i' + 2 < length input" "link_inv input i' hashHead' hashPrev'"
      using "1.IH" [OF True refl refl inv "1.prems"(2) run] by blast
    then show ?thesis by (intro exI [of _ i']) simp
  next
    case False
    then have "hashHead' = ?hh0" "hashPrev' = hashPrev"
      using "1.prems"(3) by (subst (asm) buildHashTable_racy_loop.simps, simp)+
    with False r show ?thesis by (intro exI [of _ i]) simp
  qed
qed

lemma buildHashTable_racy_links:
  assumes "length input < 2 ^ 31" and "length hashPrev0 = length input"
    and "j + 2 < length input"
  shows "snd (buildHashTable_racy input late hashPrev0) ! j = - 1
         \<or> (0 \<le> snd (buildHashTable_racy input late hashPrev0) ! j
            \<and> snd (buildHashTable_racy input late hashPrev0) ! j < int j)"
proof -
  obtain hashHead hashPrev where
    b: "buildHashTable_racy input late hashPrev0 = (hashHead, hashPrev)"
    by (cases "buildHashTable_racy input late hashPrev0")
  have i0: "link_inv input 0 (\<lambda>h. - 1) hashPrev0"
    using assms(2) by (simp add: link_inv_def)
  obtain i' where i': "\<not> i' + 2 < length input" "link_inv input i' hashHead hashPrev"
    using link_inv_loop [OF i0 assms(1)] b unfolding buildHashTable_racy_def by blast
  have "j < i'" using i'(1) assms(3) by simp
  then show ?thesis
    using i'(2) by (simp add: link_inv_def b)
qed

lemma back_links_of_racy:
  assumes "length input < 2 ^ 31" and "length hashPrev0 = length input"
    and "i + 2 < length input" and "i < fuel"
  shows "snd (buildHashTable_racy input late hashPrev0) ! i < int i
         \<and> last (back_links (snd (buildHashTable_racy input late hashPrev0)) fuel (int i)) = - 1
         \<and> sorted_wrt (>) (back_links (snd (buildHashTable_racy input late hashPrev0)) fuel (int i))"
proof -
  let ?hp = "snd (buildHashTable_racy input late hashPrev0)"
  have l: "\<And>j. j \<le> i \<Longrightarrow> ?hp ! j = - 1 \<or> (0 \<le> ?hp ! j \<and> ?hp ! j < int j)"
    using buildHashTable_racy_links [OF assms(1,2)] assms(3) by simp
  have "?hp ! i < int i" using l [of i] by auto
  then show ?thesis
    using back_links_chain [of i ?hp fuel, OF l assms(4)] by simp
qed

subsection \<open>Matches and tokens on concrete inputs\<close>

lemma concat_replicate_nth:
  "i < n * length xs \<Longrightarrow> concat (replicate n xs) ! i = xs ! (i mod length xs)"
proof (induction n arbitrary: i)
  case 0
  then show ?case by simp
next
  case (Suc n)
  show ?case
  proof (cases "i < length xs")
    case True
    then show ?thesis by (simp add: nth_append)
  next
    case False
    then have "i - length xs < n * length xs" using Suc.prems by simp
    then have "concat (replicate n xs) ! (i - length xs) = xs ! ((i - length xs) mod length xs)"
      by (rule Suc.IH)
    moreover have "(i - length xs) mod length xs = i mod length xs"
      using False by (simp add: le_mod_geq)
    ultimately show ?thesis using False by (simp add: nth_append)
  qed
qed

lemma chain_walk_stop:
  "pos < 0 \<or> size_sub idx pos > WINDOW_SIZE \<Longrightarrow>
     chain_walk input hashPrev idx searchLimit pos bestLen bestOff = (bestLen, bestOff)"
  by (cases searchLimit) auto

lemma chain_walk_64:
  "chain_walk input hashPrev idx 64 pos bestLen bestOff =
     (if pos \<ge> 0 \<and> size_sub idx pos \<le> WINDOW_SIZE
      then (let len = int (match_length input (nat pos) idx 0)
            in if len \<ge> MIN_MATCH \<and> len > bestLen
               then chain_walk input hashPrev idx 63 (hashPrev ! nat pos) len (size_sub idx pos)
               else chain_walk input hashPrev idx 63 (hashPrev ! nat pos) bestLen bestOff)
      else (bestLen, bestOff))"
proof -
  have "(64::nat) = Suc 63" by simp
  then show ?thesis by (simp only: chain_walk.simps)
qed

lemma hash_AAA: "hash_at [0x41, 0x41, 0x41] 0 = 3169"
  by (simp add: hash_at_def hashFunc_def HASH_SIZE_def HASH_BITS_def)

lemma hash_BBB: "hash_at [0x42, 0x42, 0x42] 0 = 2"
  by (simp add: hash_at_def hashFunc_def HASH_SIZE_def HASH_BITS_def)

lemma build_AAA:
  "buildHashTable [0x41, 0x41, 0x41] [0, 0, 0] = ((\<lambda>h. - 1)(3169 := 0), [- 1, 0, 0])"
  by (simp add: buildHashTable_def buildHashTable_loop.simps hash_AAA to_int32_def)

lemma build_BBB:
  "buildHashTable [0x42, 0x42, 0x42] [0, 0, 0] = ((\<lambda>h. - 1)(2 := 0), [- 1, 0, 0])"
  by (simp add: buildHashTable_def buildHashTable_loop.simps hash_BBB to_int32_def)

lemma find_AAA:
  "findMatches [0x41, 0x41, 0x41] ((\<lambda>h. - 1)(3169 := 0)) [- 1, 0, 0] = ([0, 0, 0], [3, 0, 0])"
  by (simp add: findMatches_def findMatches_thread_def upt_rec hash_AAA chain_walk_64
        chain_walk_stop match_length.simps MAX_MATCH_def MIN_MATCH_def WINDOW_SIZE_def size_sub_def)

lemma find_BBB:
  "findMatches [0x42, 0x42, 0x42] ((\<lambda>h. - 1)(2 := 0)) [- 1, 0, 0] = ([0, 0, 0], [3, 0, 0])"
  by (simp add: findMatches_def findMatches_thread_def upt_rec hash_BBB chain_walk_64
        chain_walk_stop match_length.simps MAX_MATCH_def MIN_MATCH_def WINDOW_SIZE_def size_sub_def)

lemma encode_one_match:
  "encodeTokens [a, b, c] [0, 0, 0] [3, 0, 0] = [0x80000000]"
  by (simp add: encodeTokens_def encodeTokens_loop.simps MIN_MATCH_def match_token_def)

lemma size_sub_wraps:
  assumes "int idx < pos" "pos < 2 ^ 31"
  shows "WINDOW_SIZE < size_sub idx pos"
proof -
  have "(int idx - pos) mod 2 ^ 64 = int idx - pos + 2 ^ 64"
    using assms by (intro mod_pos_pos_trivial [THEN trans [OF mod_add_self2 [symmetric]]]) simp_all
  then show ?thesis using assms by (simp add: size_sub_def WINDOW_SIZE_def)
qed

lemma findMatches_thread_later:
  assumes "length input < 2 ^ 31" and "length hashPrev0 = length input"
    and "buildHashTable input hashPrev0 = (hashHead, hashPrev)"
    and "idx < j" and "j + 2 < length input" and "hash_at input j = hash_at input idx"
  shows "findMatches_thread input hashHead hashPrev idx = (0, 0)"
proof -
  have "int j \<le> hashHead (hash_at input j)"
    by (rule buildHashTable_inv(3) [OF assms(1,2,3) assms(5)])
  then have lo: "int idx < hashHead (hash_at input idx)"
    using assms(4,6) by simp
  have "hashHead (hash_at input idx) < int (length input)"
    by (rule buildHashTable_inv(4) [OF assms(1,2,3)])
  then have hi: "hashHead (hash_at input idx) < 2 ^ 31"
    using assms(1) by simp
  have "chain_walk input hashPrev idx 64 (hashHead (hash_at input idx)) 0 0 = (0, 0)"
    by (rule chain_walk_stop) (simp add: size_sub_wraps [OF lo hi])
  then show ?thesis
    using assms(4,5) by (simp add: findMatches_thread_def)
qed

lemma encodeTokens_loop_literals:
  assumes "\<And>p. i \<le> p \<Longrightarrow> p < k \<Longrightarrow> matchLength ! p < 3" and "k \<le> length input" and "i \<le> k"
  shows "k - i \<le> length (encodeTokens_loop input matchOffset matchLength i)"
  using assms
proof (induction "k - i" arbitrary: i)
  case 0
  then show ?case by simp
next
  case (Suc d)
  have i: "i < k" "i < length input" using Suc.hyps(2) Suc.prems(2) by simp_all
  have adv: "advance matchLength i = 1"
    using Suc.prems(1) [of i] i by (simp add: advance_def MIN_MATCH_def)
  obtain w where u: "encodeTokens_loop input matchOffset matchLength i =
       (i, w) # encodeTokens_loop input matchOffset matchLength (i + 1)"
    using encodeTokens_loop_unfold [OF i(2), of matchOffset matchLength] adv by auto
  have "k - (i + 1) \<le> length (encodeTokens_loop input matchOffset matchLength (i + 1))"
    using Suc.hyps(1) [of "i + 1"] Suc.hyps(2) Suc.prems i by simp
  then show ?case using u Suc.hyps(2) by simp
qed

text \<open>
  Claim C1 (failing on the code). The head table is complete before any thread searches,
  so the head of a hash can be the searching position itself; the window test
  \<^verbatim>\<open>idx - pos <= WINDOW_SIZE\<close> accepts the distance 0 and the position matches itself.
  For the input \<^verbatim>\<open>"AAA"\<close> the token stream is the single match token of length 3 at
  offset 0, which refers to output not yet decoded, so decoding fails. The input
  \<^verbatim>\<open>"BBB"\<close> yields the very same stream: no decoder at all can return both inputs.
\<close>

theorem lz77_round_trip_fails:
  "lz77_tokens [0x41, 0x41, 0x41] [0, 0, 0] = [0x80000000]
   \<and> lz77_tokens [0x42, 0x42, 0x42] [0, 0, 0] = [0x80000000]
   \<and> decodeTokens (lz77_tokens [0x41, 0x41, 0x41] [0, 0, 0]) [] = None"
proof -
  have a: "lz77_tokens [0x41, 0x41, 0x41] [0, 0, 0] = [0x80000000]"
    by (simp add: lz77_tokens_def build_AAA find_AAA encode_one_match)
  have b: "lz77_tokens [0x42, 0x42, 0x42] [0, 0, 0] = [0x80000000]"
    by (simp add: lz77_tokens_def build_BBB find_BBB encode_one_match)
  have c: "decodeTokens [0x80000000] [] = None"
    by (simp add: bit_iff_odd_drop_bit)
  show ?thesis using a b c by simp
qed





text \<open>
  Claim C8, amended. For an input whose positions fit the \<^verbatim>\<open>int\<close> tables (fewer than
  \<open>2^31\<close> bytes), in every run of the kernel, whenever the initialising stores of the
  other blocks land: every inserted position \<open>i\<close> has \<^verbatim>\<open>hashPrev[i] < i\<close>, and following
  back-links from \<open>i\<close> with any fuel above \<open>i\<close> visits strictly decreasing values and ends
  at the sentinel \<open>-1\<close>.
\<close>

theorem hash_chains_decrease:
  assumes "length input < 2 ^ 31" and "length hashPrev0 = length input"
    and "i + 2 < length input" and "i < fuel"
  shows "snd (buildHashTable_racy input late hashPrev0) ! i < int i
         \<and> last (back_links (snd (buildHashTable_racy input late hashPrev0)) fuel (int i)) = - 1
         \<and> sorted_wrt (>) (back_links (snd (buildHashTable_racy input late hashPrev0)) fuel (int i))"
  by (rule back_links_of_racy [OF assms])

theorem hash_chains_decrease_witness:
  "snd (buildHashTable_racy [0x41, 0x41, 0x41, 0x41] (\<lambda>i h. i = 1) [0, 0, 0, 0]) ! 1 < int 1
   \<and> last (back_links (snd (buildHashTable_racy [0x41, 0x41, 0x41, 0x41] (\<lambda>i h. i = 1)
                               [0, 0, 0, 0])) 2 (int 1)) = - 1
   \<and> sorted_wrt (>) (back_links (snd (buildHashTable_racy [0x41, 0x41, 0x41, 0x41] (\<lambda>i h. i = 1)
                               [0, 0, 0, 0])) 2 (int 1))"
  by (rule hash_chains_decrease) simp_all

lemma length_abcd_1000: "length abcd_1000 = 4000"
proof -
  have "\<And>n (xs :: byte list). length (concat (replicate n xs)) = n * length xs"
    by (induct_tac n) simp_all
  then show ?thesis by (simp add: abcd_1000_def)
qed

lemma abcd_1000_period: "i + 4 < 4000 \<Longrightarrow> abcd_1000 ! (i + 4) = abcd_1000 ! i"
proof -
  assume a: "i + 4 < 4000"
  have "abcd_1000 ! (i + 4) = [0x41, 0x42, 0x43, 0x44 :: byte] ! ((i + 4) mod 4)"
    unfolding abcd_1000_def using a by (subst concat_replicate_nth) simp_all
  moreover have "abcd_1000 ! i = [0x41, 0x42, 0x43, 0x44 :: byte] ! (i mod 4)"
    unfolding abcd_1000_def using a by (subst concat_replicate_nth) simp_all
  ultimately show ?thesis by simp
qed

lemma abcd_1000_null_match:
  assumes "idx < 3994"
    and "buildHashTable abcd_1000 (replicate 4000 0) = (hashHead, hashPrev)"
  shows "findMatches_thread abcd_1000 hashHead hashPrev idx = (0, 0)"
proof -
  have h: "hash_at abcd_1000 (idx + 4) = hash_at abcd_1000 idx"
    using assms(1) abcd_1000_period [of idx] abcd_1000_period [of "idx + 1"]
      abcd_1000_period [of "idx + 2"]
    by (simp add: hash_at_def add.commute add.left_commute)
  show ?thesis
    by (rule findMatches_thread_later [OF _ _ assms(2) _ _ h])
      (use assms(1) in \<open>simp_all add: length_abcd_1000\<close>)
qed

text \<open>
  Claim C3 (failing on the code). On \<^verbatim>\<open>"ABCD"\<close> repeated 1000 times the head of every
  hash is its last occurrence, which lies after any searching position of the first 998
  repetitions; there \<^verbatim>\<open>idx - pos\<close> wraps around to a huge unsigned value, the window test
  fails and the traversal ends at once. Position 4, the start of the second repetition,
  gets the null match (length 0, offset 0) instead of a match of length at least 4 at
  offset 4; the first 3994 positions are all emitted as 4-byte literal tokens, so the
  compressed size exceeds the 4000 input bytes.
\<close>

theorem lz77_abcd_no_match:
  "snd (findMatches abcd_1000 (fst (buildHashTable abcd_1000 (replicate 4000 0)))
          (snd (buildHashTable abcd_1000 (replicate 4000 0)))) ! 4 = 0
   \<and> fst (findMatches abcd_1000 (fst (buildHashTable abcd_1000 (replicate 4000 0)))
          (snd (buildHashTable abcd_1000 (replicate 4000 0)))) ! 4 = 0
   \<and> length abcd_1000 < 4 * length (lz77_tokens abcd_1000 (replicate 4000 0))"
proof -
  obtain hashHead hashPrev where
    b: "buildHashTable abcd_1000 (replicate 4000 0) = (hashHead, hashPrev)"
    by (cases "buildHashTable abcd_1000 (replicate 4000 0)")
  obtain matchOffset matchLength where
    f: "findMatches abcd_1000 hashHead hashPrev = (matchOffset, matchLength)"
    by (cases "findMatches abcd_1000 hashHead hashPrev")
  have null: "\<And>idx. idx < 3994 \<Longrightarrow> matchLength ! idx = 0 \<and> matchOffset ! idx = 0"
  proof -
    fix idx :: nat assume i: "idx < 3994"
    have "findMatches_thread abcd_1000 hashHead hashPrev idx = (0, 0)"
      by (rule abcd_1000_null_match [OF i b])
    then show "matchLength ! idx = 0 \<and> matchOffset ! idx = 0"
      using f i by (auto simp: findMatches_def length_abcd_1000)
  qed
  have "3994 - 0 \<le> length (encodeTokens_loop abcd_1000 matchOffset matchLength 0)"
    by (rule encodeTokens_loop_literals) (use null in \<open>simp_all add: length_abcd_1000\<close>)
  then have "3994 \<le> length (lz77_tokens abcd_1000 (replicate 4000 0))"
    by (simp add: lz77_tokens_def b f encodeTokens_def)
  then show ?thesis
    using null [of 4] by (simp add: b f length_abcd_1000)
qed


lemma const_inv_loop:
  assumes "const_inv (length input) h0 i hashHead hashPrev"
    and "\<And>j. j + 2 < length input \<Longrightarrow> hash_at input j = h0"
    and "buildHashTable_loop input i hashHead hashPrev = (hashHead', hashPrev')"
  shows "\<exists>i'. i \<le> i' \<and> \<not> i' + 2 < length input \<and> const_inv (length input) h0 i' hashHead' hashPrev'"
  using assms
proof (induction input i hashHead hashPrev rule: buildHashTable_loop.induct)
  case (1 input i hashHead hashPrev)
  show ?case
  proof (cases "i + 2 < length input")
    case True
    have h: "hash_at input i = h0" by (rule "1.prems"(2) [OF True])
    have len: "length hashPrev = length input"
      and hd: "0 < i \<Longrightarrow> hashHead h0 = to_int32 (i - 1)"
      and pv: "\<And>j. 0 < j \<Longrightarrow> j < i \<Longrightarrow> hashPrev ! j = to_int32 (j - 1)"
      using "1.prems"(1) by (simp_all add: const_inv_def)
    have il: "i < length hashPrev" using len True by simp
    have inv: "const_inv (length input) h0 (i + 1) (hashHead(hash_at input i := to_int32 i))
           (hashPrev[i := hashHead (hash_at input i)])"
      unfolding const_inv_def
    proof (intro conjI allI impI)
      show "length (hashPrev[i := hashHead (hash_at input i)]) = length input"
        using len by simp
      show "(hashHead(hash_at input i := to_int32 i)) h0 = to_int32 (i + 1 - 1)"
        by (simp add: h)
      fix j assume j: "0 < j \<and> j < i + 1"
      show "hashPrev[i := hashHead (hash_at input i)] ! j = to_int32 (j - 1)"
      proof (cases "j = i")
        case True
        then show ?thesis using il j hd by (simp add: h)
      next
        case False
        then have "j < i" using j by simp
        then show ?thesis using pv [of j] j False by simp
      qed
    qed
    have run: "buildHashTable_loop input (i + 1) (hashHead(hash_at input i := to_int32 i))
           (hashPrev[i := hashHead (hash_at input i)]) = (hashHead', hashPrev')"
      using "1.prems"(3) True by (subst (asm) buildHashTable_loop.simps) (simp add: Let_def)
    obtain i' where "i + 1 \<le> i'" "\<not> i' + 2 < length input"
      "const_inv (length input) h0 i' hashHead' hashPrev'"
      using "1.IH" [OF True refl inv "1.prems"(2) run] by blast
    then show ?thesis by (intro exI [of _ i']) simp
  next
    case False
    then have "hashHead' = hashHead" "hashPrev' = hashPrev"
      using "1.prems"(3) by (subst (asm) buildHashTable_loop.simps, simp)+
    with False "1.prems"(1) show ?thesis by (intro exI [of _ i]) simp
  qed
qed

lemma buildHashTable_const:
  assumes "\<And>j. j + 2 < length input \<Longrightarrow> hash_at input j = h0"
    and "length hashPrev0 = length input" and "0 < j" and "j + 2 < length input"
  shows "snd (buildHashTable input hashPrev0) ! j = to_int32 (j - 1)"
proof -
  obtain hashHead hashPrev where b: "buildHashTable input hashPrev0 = (hashHead, hashPrev)"
    by (cases "buildHashTable input hashPrev0")
  have i0: "const_inv (length input) h0 0 (\<lambda>h. - 1) hashPrev0"
    using assms(2) by (simp add: const_inv_def)
  obtain i' where i': "\<not> i' + 2 < length input" "const_inv (length input) h0 i' hashHead hashPrev"
    using const_inv_loop [OF i0 assms(1)] b unfolding buildHashTable_def by blast
  have "j < i'" using i'(1) assms(4) by simp
  then have "hashPrev ! j = to_int32 (j - 1)"
    using i'(2) assms(3) by (simp add: const_inv_def)
  then show ?thesis by (simp add: b)
qed

lemma back_links_Suc:
  "0 \<le> pos \<Longrightarrow> 0 < fuel \<Longrightarrow>
     back_links hashPrev fuel pos = pos # back_links hashPrev (fuel - 1) (hashPrev ! nat pos)"
  by (cases fuel) simp_all

text \<open>
  Claim C8, as stated for every input, fails once positions leave the range of \<^verbatim>\<open>int\<close>.
  On an input of \<open>2^31 + 4\<close> zero bytes position \<open>2^31\<close> is stored in the head table as
  \<open>-2^31\<close>, and the next position receives it as its back-link: the chain from position
  \<open>2^31 + 1\<close> ends at \<open>-2^31\<close>, which is neither a position nor the sentinel \<open>-1\<close> (in
  the run in which all initialising stores precede the loop).
\<close>

theorem hash_chain_leaves_sentinel:
  "snd (buildHashTable_racy (replicate 2147483652 0) (\<lambda>i h. False) (replicate 2147483652 0))
       ! 2147483649 = - 2147483648
   \<and> back_links
        (snd (buildHashTable_racy (replicate 2147483652 0) (\<lambda>i h. False) (replicate 2147483652 0)))
        2147483650 2147483649 = [2147483649, - 2147483648]"
proof -
  let ?hp = "snd (buildHashTable (replicate 2147483652 0) (replicate 2147483652 0))"
  have h: "\<And>j. j + 2 < length (replicate 2147483652 (0 :: byte)) \<Longrightarrow>
             hash_at (replicate 2147483652 0) j = hashFunc 0 0 0"
    by (simp add: hash_at_def)
  have "?hp ! 2147483649 = to_int32 (2147483649 - 1)"
    by (rule buildHashTable_const [OF h]) simp_all
  then have v: "?hp ! 2147483649 = - 2147483648"
    by (simp add: to_int32_def)
  have "back_links ?hp 2147483650 2147483649
          = 2147483649 # back_links ?hp (2147483650 - 1) (?hp ! nat 2147483649)"
    by (rule back_links_Suc) simp_all
  also have "\<dots> = [2147483649, - 2147483648]"
    by (simp add: v back_links_neg)
  finally show ?thesis using v by (simp add: buildHashTable_racy_plain)
qed


section \<open>Properties of the frequency table and the CDF\<close>

subsection \<open>Counting\<close>

lemma atomicAdd_length: "length (atomicAdd mem a v) = length mem"
  by (simp add: atomicAdd_def)

lemma atomicAdd_nth:
  "a < length mem \<Longrightarrow> atomicAdd mem a v ! s = (if s = a then mem ! s + v else mem ! s)"
  by (simp add: atomicAdd_def nth_list_update)

lemma grid_stride_single:
  assumes "0 < stride" and "n \<le> idx + stride"
  shows "grid_stride idx stride n = (if idx < n then [idx] else [])"
proof (cases "idx < n")
  case True
  have "grid_stride (idx + stride) stride n = []"
    using assms(2) by (subst grid_stride.simps) simp
  then show ?thesis
    using True assms(1) by (subst grid_stride.simps) simp
next
  case False
  then show ?thesis by (subst grid_stride.simps) simp
qed

lemma count_thread_single:
  assumes "0 < stride" and "length input \<le> idx + stride"
  shows "count_thread input idx stride lf =
           (if idx < length input then atomicAdd lf (unat (input ! idx)) 1 else lf)"
  by (simp add: count_thread_def grid_stride_single [OF assms])

lemma fold_count_length:
  "length (fold (\<lambda>t lf. if P t then atomicAdd lf (f t) 1 else lf) ts lf0) = length lf0"
  by (induction ts arbitrary: lf0) (simp_all add: atomicAdd_length)

lemma fold_count_nth:
  assumes "\<And>t. t \<in> set ts \<Longrightarrow> f t < length lf0" and "s < length lf0"
  shows "fold (\<lambda>t lf. if P t then atomicAdd lf (f t) 1 else lf) ts lf0 ! s
           = lf0 ! s + word_of_nat (length (filter (\<lambda>t. P t \<and> f t = s) ts))"
  using assms
proof (induction ts arbitrary: lf0)
  case Nil
  then show ?case by simp
next
  case (Cons t ts)
  let ?lf1 = "if P t then atomicAdd lf0 (f t) 1 else lf0"
  have len: "length ?lf1 = length lf0" by (simp add: atomicAdd_length)
  have ft: "f t < length lf0" using Cons.prems(1) by simp
  have IH: "fold (\<lambda>t lf. if P t then atomicAdd lf (f t) 1 else lf) ts ?lf1 ! s
           = ?lf1 ! s + word_of_nat (length (filter (\<lambda>t. P t \<and> f t = s) ts))"
    by (rule Cons.IH) (use Cons.prems len in simp_all)
  have first: "?lf1 ! s = lf0 ! s + (if P t \<and> f t = s then 1 else 0)"
    using ft by (auto simp: atomicAdd_nth)
  show ?case
    using IH first by simp
qed

lemma count_block_eq:
  assumes "0 < stride" and "stride < 2 ^ 32" and "stride = BLOCK_SIZE * gridDim"
    and "length input \<le> stride" and "b < gridDim"
  shows "count_block input gridDim BLOCK_SIZE b =
           fold (\<lambda>t lf. if b * BLOCK_SIZE + t < length input
                          then atomicAdd lf (unat (input ! (b * BLOCK_SIZE + t))) 1 else lf)
             [0..<BLOCK_SIZE] (replicate ALPHABET_SIZE 0)"
proof -
  have s: "(BLOCK_SIZE * gridDim) mod 2 ^ 32 = stride"
    using assms(2,3) by simp
  have idx: "\<And>t. t \<in> set [0..<BLOCK_SIZE] \<Longrightarrow> (b * BLOCK_SIZE + t) mod 2 ^ 32 = b * BLOCK_SIZE + t"
  proof -
    fix t assume "t \<in> set [0..<BLOCK_SIZE]"
    then have t: "t < BLOCK_SIZE" by simp
    have "Suc b * BLOCK_SIZE \<le> gridDim * BLOCK_SIZE"
      using assms(5) by (intro mult_le_mono1) simp
    then have "b * BLOCK_SIZE + t < stride"
      using t assms(3) by (simp add: mult.commute)
    then show "(b * BLOCK_SIZE + t) mod 2 ^ 32 = b * BLOCK_SIZE + t"
      using assms(2) by simp
  qed
  have main: "fold (\<lambda>t lf. count_thread input ((b * BLOCK_SIZE + t) mod 2 ^ 32) stride lf)
          [0..<BLOCK_SIZE] (replicate ALPHABET_SIZE 0)
        = fold (\<lambda>t lf. if b * BLOCK_SIZE + t < length input
                          then atomicAdd lf (unat (input ! (b * BLOCK_SIZE + t))) 1 else lf)
             [0..<BLOCK_SIZE] (replicate ALPHABET_SIZE 0)"
  proof (rule fold_cong [OF refl refl])
    fix t assume t: "t \<in> set [0..<BLOCK_SIZE]"
    have le: "length input \<le> b * BLOCK_SIZE + t + stride"
      using assms(4) by simp
    show "count_thread input ((b * BLOCK_SIZE + t) mod 2 ^ 32) stride
            = (\<lambda>lf. if b * BLOCK_SIZE + t < length input
                          then atomicAdd lf (unat (input ! (b * BLOCK_SIZE + t))) 1 else lf)"
      unfolding idx [OF t] by (rule ext) (rule count_thread_single [OF assms(1) le])
  qed
  show ?thesis
    unfolding count_block_def Let_def s by (rule main)
qed

lemma unat_byte_less: "unat (x :: byte) < ALPHABET_SIZE"
  using unsigned_less [of x] by (simp add: ALPHABET_SIZE_def)

lemma count_block_length:
  assumes "0 < stride" and "stride < 2 ^ 32" and "stride = BLOCK_SIZE * gridDim"
    and "length input \<le> stride" and "b < gridDim"
  shows "length (count_block input gridDim BLOCK_SIZE b) = ALPHABET_SIZE"
  unfolding count_block_eq [OF assms] by (simp add: fold_count_length)

lemma count_block_nth:
  assumes "0 < stride" and "stride < 2 ^ 32" and "stride = BLOCK_SIZE * gridDim"
    and "length input \<le> stride" and "b < gridDim" and "s < ALPHABET_SIZE"
  shows "count_block input gridDim BLOCK_SIZE b ! s =
           word_of_nat (length (filter (\<lambda>t. b * BLOCK_SIZE + t < length input
                                         \<and> unat (input ! (b * BLOCK_SIZE + t)) = s)
                                  [0..<BLOCK_SIZE]))"
proof -
  have "fold (\<lambda>t lf. if b * BLOCK_SIZE + t < length input
                          then atomicAdd lf (unat (input ! (b * BLOCK_SIZE + t))) 1 else lf)
             [0..<BLOCK_SIZE] (replicate ALPHABET_SIZE 0) ! s
        = replicate ALPHABET_SIZE 0 ! s
          + word_of_nat (length (filter (\<lambda>t. b * BLOCK_SIZE + t < length input
                                         \<and> unat (input ! (b * BLOCK_SIZE + t)) = s)
                                  [0..<BLOCK_SIZE]))"
    by (rule fold_count_nth) (use assms(6) in \<open>simp_all add: unat_byte_less\<close>)
  then show ?thesis
    unfolding count_block_eq [OF assms(1-5)] using assms(6) by simp
qed

lemma merge_entry_length: "length (merge_entry lf i g) = length g"
  by (simp add: merge_entry_def atomicAdd_length)

lemma merge_entry_nth:
  "i < length g \<Longrightarrow> merge_entry lf i g ! s = (if s = i then g ! s + lf ! i else g ! s)"
  by (auto simp: merge_entry_def atomicAdd_nth word_greater_zero_iff)

lemma fold_merge_length:
  "length (fold (\<lambda>(b, i) g. merge_entry (L b) i g) merges g0) = length g0"
  by (induction merges arbitrary: g0) (simp_all add: merge_entry_length split: prod.splits)

lemma fold_merge_nth:
  assumes "\<And>b i. (b, i) \<in> set merges \<Longrightarrow> i < length g0"
  shows "fold (\<lambda>(b, i) g. merge_entry (L b) i g) merges g0 ! s
           = g0 ! s + sum_list (map (\<lambda>(b, i). L b ! s) (filter (\<lambda>(b, i). i = s) merges))"
  using assms
proof (induction merges arbitrary: g0)
  case Nil
  then show ?case by simp
next
  case (Cons m merges)
  obtain b i where m: "m = (b, i)" by (cases m)
  have i: "i < length g0" using Cons.prems [of b i] m by simp
  have IH: "fold (\<lambda>(b, i) g. merge_entry (L b) i g) merges (merge_entry (L b) i g0) ! s
           = merge_entry (L b) i g0 ! s
             + sum_list (map (\<lambda>(b, i). L b ! s) (filter (\<lambda>(b, i). i = s) merges))"
    by (rule Cons.IH) (use Cons.prems in \<open>auto simp: merge_entry_length\<close>)
  show ?case
    using IH i by (simp add: m merge_entry_nth)
qed

lemma merge_sum:
  assumes "merge_order gridDim merges" and "s < ALPHABET_SIZE"
  shows "sum_list (map (\<lambda>(b, i). (L b ! s :: 32 word)) (filter (\<lambda>(b, i). i = s) merges))
           = (\<Sum>b = 0..<gridDim. L b ! s)"
proof -
  have d: "distinct (filter (\<lambda>(b, i). i = s) merges)"
    using assms(1) by (simp add: merge_order_def)
  have st: "set (filter (\<lambda>(b, i). i = s) merges) = (\<lambda>b. (b, s)) ` {0..<gridDim}"
    using assms by (auto simp: merge_order_def)
  have inj: "inj_on (\<lambda>b. (b, s)) {0..<gridDim}"
    by (simp add: inj_on_def)
  have "sum_list (map (\<lambda>(b, i). L b ! s) (filter (\<lambda>(b, i). i = s) merges))
          = sum (\<lambda>(b, i). L b ! s) (set (filter (\<lambda>(b, i). i = s) merges))"
    by (rule sum_list_distinct_conv_sum_set [OF d])
  also have "\<dots> = sum ((\<lambda>(b, i). L b ! s) \<circ> (\<lambda>b. (b, s))) {0..<gridDim}"
    unfolding st by (rule sum.reindex [OF inj])
  finally show ?thesis by (simp add: comp_def)
qed

lemma filter_blocks:
  "(\<Sum>b = 0..<g. length (filter (\<lambda>t. Q (b * c + t)) [0..<c]))
     = length (filter Q [0..<g * c])"
proof (induction g)
  case 0
  show ?case by simp
next
  case (Suc g)
  have sp: "[0..<Suc g * c] = [0..<g * c] @ map (\<lambda>t. g * c + t) [0..<c]"
  proof -
    have "[0..<g * c + c] = [0..<g * c] @ [g * c..<g * c + c]"
      by (rule upt_add_eq_append) simp
    moreover have "[g * c..<g * c + c] = map (\<lambda>t. g * c + t) [0..<c]"
      by (simp add: map_add_upt add.commute)
    ultimately show ?thesis by (simp add: add.commute)
  qed
  have m: "length (filter Q (map (\<lambda>t. g * c + t) [0..<c]))
          = length (filter (\<lambda>t. Q (g * c + t)) [0..<c])"
    by (simp add: filter_map comp_def)
  have "(\<Sum>b = 0..<Suc g. length (filter (\<lambda>t. Q (b * c + t)) [0..<c]))
          = (\<Sum>b = 0..<g. length (filter (\<lambda>t. Q (b * c + t)) [0..<c]))
            + length (filter (\<lambda>t. Q (g * c + t)) [0..<c])"
    by simp
  also have "\<dots> = length (filter Q [0..<g * c])
            + length (filter Q (map (\<lambda>t. g * c + t) [0..<c]))"
    unfolding Suc m by (rule refl)
  also have "\<dots> = length (filter Q [0..<Suc g * c])"
    unfolding sp by simp
  finally show ?case .
qed

lemma filter_below:
  assumes "n \<le> m"
  shows "filter (\<lambda>i. i < n \<and> Q i) [0..<m] = filter Q [0..<n]"
proof -
  have "[0..<m] = [0..<n] @ [n..<m]"
    using assms by (metis le_add_diff_inverse upt_add_eq_append zero_le)
  moreover have "filter (\<lambda>i. i < n \<and> Q i) [n..<m] = []"
    by (simp add: filter_empty_conv)
  moreover have "filter (\<lambda>i. i < n \<and> Q i) [0..<n] = filter Q [0..<n]"
    by (rule filter_cong) simp_all
  ultimately show ?thesis by simp
qed

lemma filter_index:
  "length (filter (\<lambda>i. P (xs ! i)) [0..<length xs]) = length (filter P xs)"
proof -
  have "filter P (map ((!) xs) [0..<length xs]) = map ((!) xs) (filter (P \<circ> (!) xs) [0..<length xs])"
    by (rule filter_map)
  then have "length (filter P xs) = length (filter (P \<circ> (!) xs) [0..<length xs])"
    by (simp add: map_nth)
  then show ?thesis by (simp add: comp_def)
qed

lemma count_list_filter: "count_list xs x = length (filter (\<lambda>y. y = x) xs)"
  by (induction xs) simp_all

lemma byte_value: "s < ALPHABET_SIZE \<Longrightarrow> (unat (x :: byte) = s) = (x = word_of_nat s)"
proof -
  assume s: "s < ALPHABET_SIZE"
  have "unat (word_of_nat s :: byte) = s"
    using s by (simp add: ALPHABET_SIZE_def unat_of_nat)
  then show ?thesis by auto
qed

lemma occurrences:
  fixes input :: "byte list"
  assumes "s < ALPHABET_SIZE"
  shows "length (filter (\<lambda>i. unat (input ! i) = s) [0..<length input])
           = count_list input (word_of_nat s)"
proof -
  have "length (filter (\<lambda>i. unat (input ! i) = s) [0..<length input])
          = length (filter (\<lambda>x. unat x = s) input)"
    by (rule filter_index)
  also have "\<dots> = length (filter (\<lambda>x. x = word_of_nat s) input)"
    unfolding byte_value [OF assms] by (rule refl)
  finally show ?thesis by (simp add: count_list_filter)
qed

lemma countFrequencies_histogram:
  fixes input :: "byte list"
  assumes "0 < gridDim" and "BLOCK_SIZE * gridDim < 2 ^ 32"
    and "length input \<le> BLOCK_SIZE * gridDim" and "merge_order gridDim merges"
  shows "\<exists>freq. countFrequencies input gridDim BLOCK_SIZE merges (replicate ALPHABET_SIZE 0)
                  = Some freq
          \<and> length freq = ALPHABET_SIZE
          \<and> (\<forall>s<ALPHABET_SIZE. freq ! s = word_of_nat (count_list input (word_of_nat s)))"
proof -
  let ?L = "count_block input gridDim BLOCK_SIZE"
  let ?freq = "fold (\<lambda>(b, i) g. merge_entry (?L b) i g) merges (replicate ALPHABET_SIZE 0)"
  have pos: "0 < BLOCK_SIZE * gridDim"
    using assms(1) by (simp add: BLOCK_SIZE_def)
  have run: "countFrequencies input gridDim BLOCK_SIZE merges (replicate ALPHABET_SIZE 0)
               = Some ?freq"
    using pos assms(2) by (simp add: countFrequencies_def)
  have len: "length ?freq = ALPHABET_SIZE"
    by (simp add: fold_merge_length)
  have idx: "\<And>b i. (b, i) \<in> set merges \<Longrightarrow> i < length (replicate ALPHABET_SIZE (0 :: 32 word))"
    using assms(4) by (auto simp: merge_order_def)
  have val: "?freq ! s = word_of_nat (count_list input (word_of_nat s))"
    if s: "s < ALPHABET_SIZE" for s
  proof -
    have "?freq ! s = replicate ALPHABET_SIZE 0 ! s
            + sum_list (map (\<lambda>(b, i). ?L b ! s) (filter (\<lambda>(b, i). i = s) merges))"
      by (rule fold_merge_nth [OF idx])
    also have "\<dots> = (\<Sum>b = 0..<gridDim. ?L b ! s)"
      using s by (simp add: merge_sum [OF assms(4) s])
    also have "\<dots> = (\<Sum>b = 0..<gridDim.
          word_of_nat (length (filter (\<lambda>t. b * BLOCK_SIZE + t < length input
                                         \<and> unat (input ! (b * BLOCK_SIZE + t)) = s)
                                  [0..<BLOCK_SIZE])))"
      by (rule sum.cong [OF refl])
        (simp add: count_block_nth [OF pos assms(2) refl assms(3) _ s])
    also have "\<dots> = word_of_nat (\<Sum>b = 0..<gridDim.
          length (filter (\<lambda>t. b * BLOCK_SIZE + t < length input
                                         \<and> unat (input ! (b * BLOCK_SIZE + t)) = s)
                                  [0..<BLOCK_SIZE]))"
      by simp
    also have "(\<Sum>b = 0..<gridDim.
          length (filter (\<lambda>t. b * BLOCK_SIZE + t < length input
                                         \<and> unat (input ! (b * BLOCK_SIZE + t)) = s)
                                  [0..<BLOCK_SIZE]))
        = length (filter (\<lambda>i. i < length input \<and> unat (input ! i) = s)
                    [0..<gridDim * BLOCK_SIZE])"
      by (rule filter_blocks)
    also have "\<dots> = length (filter (\<lambda>i. unat (input ! i) = s) [0..<length input])"
      using assms(3) by (simp add: filter_below mult.commute)
    also have "\<dots> = count_list input (word_of_nat s)"
      by (rule occurrences [OF s])
    finally show ?thesis .
  qed
  show ?thesis
    using run len val by blast
qed

lemma freqBlocks_eq:
  assumes "length input < 2 ^ 32 - 255"
  shows "freqBlocks input = int ((length input + 255) div 256)"
proof -
  have "(length input + 255) div 256 < 2 ^ 31"
    using assms by simp
  then show ?thesis
    by (simp add: freqBlocks_def BLOCK_SIZE_def to_int32_id)
qed

lemma unat_count:
  fixes input :: "byte list"
  assumes "length input < 2 ^ 32"
  shows "unat (word_of_nat (count_list input x) :: 32 word) = count_list input x"
proof -
  have "count_list input x \<le> length input" by (rule count_le_length)
  then have "count_list input x < 2 ^ 32" using assms by simp
  then show ?thesis by (simp add: unat_of_nat)
qed

lemma count_stage_words:
  fixes input :: "byte list"
  assumes "length input < 2 ^ 32 - 255"
    and "merge_order (nat (freqBlocks input)) merges"
  shows "\<exists>freq. count_stage input merges = Some freq
          \<and> length freq = ALPHABET_SIZE
          \<and> (\<forall>s<ALPHABET_SIZE. freq ! s = word_of_nat (count_list input (word_of_nat s)))"
proof (cases "input = []")
  case True
  then have "freqBlocks input = 0"
    by (simp add: freqBlocks_def BLOCK_SIZE_def to_int32_def)
  then show ?thesis
    using True by (simp add: count_stage_def)
next
  case False
  let ?g = "(length input + 255) div 256"
  have fb: "freqBlocks input = int ?g"
    by (rule freqBlocks_eq [OF assms(1)])
  have n0: "1 \<le> length input" using False by (cases input) simp_all
  have "256 \<le> length input + 255" using n0 by linarith
  then have "256 div 256 \<le> ?g" by (rule div_le_mono)
  then have g0: "0 < ?g" by simp
  have up: "256 * ?g \<le> length input + 255"
    by simp
  then have b1: "BLOCK_SIZE * ?g < 2 ^ 32"
    using assms(1) by (simp add: BLOCK_SIZE_def)
  have "length input + 255 < 256 * ?g + 256"
    using div_mult_mod_eq [of "length input + 255" 256] by simp
  then have b2: "length input \<le> BLOCK_SIZE * ?g"
    by (simp add: BLOCK_SIZE_def)
  have m: "merge_order ?g merges"
    using assms(2) by (simp add: fb)
  show ?thesis
    using countFrequencies_histogram [OF g0 b1 b2 m] g0
    by (simp add: count_stage_def fb)
qed

text \<open>
  Claim C5, amended. For an input of fewer than \<open>2^32 - 255\<close> bytes the counting stage returns, and
  whatever the order in which the blocks' merges reach the global table, entry \<open>s\<close> of the
  table is the number of occurrences of the byte \<open>s\<close> in the input, for all 256 symbols.
\<close>

theorem count_stage_histogram:
  fixes input :: "byte list"
  assumes "length input < 2 ^ 32 - 255"
    and "merge_order (nat (freqBlocks input)) merges"
  shows "\<exists>freq. count_stage input merges = Some freq
          \<and> length freq = ALPHABET_SIZE
          \<and> (\<forall>s<ALPHABET_SIZE. unat (freq ! s) = count_list input (word_of_nat s))"
proof -
  have n: "length input < 2 ^ 32" using assms(1) by simp
  obtain freq where f: "count_stage input merges = Some freq" "length freq = ALPHABET_SIZE"
    "\<forall>s<ALPHABET_SIZE. freq ! s = word_of_nat (count_list input (word_of_nat s))"
    using count_stage_words [OF assms] by blast
  have "\<forall>s<ALPHABET_SIZE. unat (freq ! s) = count_list input (word_of_nat s)"
    using f(3) by (simp add: unat_count [OF n])
  then show ?thesis using f(1,2) by blast
qed

lemma count_list_replicate: "count_list (replicate n x) y = (if x = y then n else 0)"
  by (induction n) auto

lemma freqBlocks_4096: "freqBlocks (replicate 4096 0) = 16"
  by (simp add: freqBlocks_def BLOCK_SIZE_def to_int32_def)

lemma merge_order_product: "merge_order g (List.product [0..<g] [0..<ALPHABET_SIZE])"
  by (simp add: merge_order_def distinct_product)

theorem count_stage_histogram_witness:
  "\<exists>freq. count_stage (replicate 4096 0) (List.product [0..<16] [0..<ALPHABET_SIZE]) = Some freq
     \<and> unat (freq ! 0) = 4096 \<and> unat (freq ! 1) = 0 \<and> unat (freq ! 255) = 0"
proof -
  have l: "length (replicate 4096 (0 :: byte)) < 2 ^ 32 - 255" by simp
  have m: "merge_order (nat (freqBlocks (replicate 4096 0)))
             (List.product [0..<16] [0..<ALPHABET_SIZE])"
    using merge_order_product [of 16] by (simp add: freqBlocks_4096)
  obtain freq where f:
    "count_stage (replicate 4096 0) (List.product [0..<16] [0..<ALPHABET_SIZE]) = Some freq"
    "\<forall>s<ALPHABET_SIZE. unat (freq ! s) = count_list (replicate 4096 (0 :: byte)) (word_of_nat s)"
    using count_stage_histogram [OF l m] by blast
  have "unat (freq ! 0) = 4096" "unat (freq ! 1) = 0" "unat (freq ! 255) = 0"
    using f(2) by (simp_all add: ALPHABET_SIZE_def count_list_replicate)
  then show ?thesis using f(1) by blast
qed

subsection \<open>The scan\<close>

lemma scan_step_length: "length (scan_step offset temp) = ALPHABET_SIZE"
  by (simp add: scan_step_def)

lemma scan_step_nth:
  "tid < ALPHABET_SIZE \<Longrightarrow>
     scan_step offset temp ! tid =
       (if tid \<ge> offset then temp ! tid + temp ! (tid - offset) else temp ! tid)"
  by (simp add: scan_step_def del: upt_Suc)

lemma window_sums_step:
  assumes "window_sums freq w temp" and "0 < w"
  shows "window_sums freq (w * 2) (scan_step w temp)"
  unfolding window_sums_def
proof (intro conjI allI impI)
  show "length (scan_step w temp) = ALPHABET_SIZE" by (rule scan_step_length)
next
  fix tid assume tid: "tid < ALPHABET_SIZE"
  have inv: "\<And>k. k < ALPHABET_SIZE \<Longrightarrow> temp ! k = (\<Sum>t = Suc k - w..<Suc k. freq ! t)"
    using assms(1) by (simp add: window_sums_def)
  show "scan_step w temp ! tid = (\<Sum>t = Suc tid - w * 2..<Suc tid. freq ! t)"
  proof (cases "w \<le> tid")
    case True
    have k: "tid - w < ALPHABET_SIZE" using tid by simp
    have e1: "Suc (tid - w) = Suc tid - w" using True by simp
    have e2: "Suc tid - w - w = Suc tid - w * 2" by simp
    have "scan_step w temp ! tid = temp ! tid + temp ! (tid - w)"
      using True by (simp add: scan_step_nth [OF tid])
    also have "\<dots> = (\<Sum>t = Suc tid - w..<Suc tid. freq ! t)
                    + (\<Sum>t = Suc tid - w * 2..<Suc tid - w. freq ! t)"
      unfolding inv [OF tid] inv [OF k] e2 e1 by (rule refl)
    also have "\<dots> = (\<Sum>t = Suc tid - w * 2..<Suc tid. freq ! t)"
      using sum.atLeastLessThan_concat [of "Suc tid - w * 2" "Suc tid - w" "Suc tid" "\<lambda>t. freq ! t"]
      by (simp add: add.commute)
    finally show ?thesis .
  next
    case False
    then have z: "Suc tid - w = 0" "Suc tid - w * 2 = 0" by simp_all
    have "scan_step w temp ! tid = temp ! tid"
      using False by (simp add: scan_step_nth [OF tid])
    then show ?thesis
      unfolding inv [OF tid] z by simp
  qed
qed

lemma scan_loop_sums:
  assumes "window_sums freq w temp" and "0 < w"
  shows "\<exists>w'\<ge>ALPHABET_SIZE. window_sums freq w' (scan_loop w temp)"
  using assms
proof (induction w temp rule: scan_loop.induct)
  case (1 offset temp)
  show ?case
  proof (cases "offset < ALPHABET_SIZE")
    case True
    have "window_sums freq (offset * 2) (scan_step offset temp)"
      by (rule window_sums_step [OF "1.prems"])
    then have "\<exists>w'\<ge>ALPHABET_SIZE. window_sums freq w' (scan_loop (offset * 2) (scan_step offset temp))"
      using "1.IH" "1.prems"(2) True by simp
    then show ?thesis
      using True "1.prems"(2) by (subst scan_loop.simps) simp
  next
    case False
    then have "scan_loop offset temp = temp"
      by (subst scan_loop.simps) simp
    then show ?thesis
      using False "1.prems"(1) by (intro exI [of _ offset]) simp
  qed
qed

lemma buildCDF_length: "length (buildCDF freq) = ALPHABET_SIZE"
  by (simp add: buildCDF_def Let_def)

lemma buildCDF_nth:
  assumes "s < ALPHABET_SIZE"
  shows "buildCDF freq ! s = (\<Sum>t = 0..<s. freq ! t)"
proof -
  let ?temp0 = "map (\<lambda>tid. freq ! tid) [0..<ALPHABET_SIZE]"
  have "window_sums freq 1 ?temp0"
    by (simp add: window_sums_def del: upt_Suc)
  then obtain w' where w': "ALPHABET_SIZE \<le> w'" "window_sums freq w' (scan_loop 1 ?temp0)"
    using scan_loop_sums [of freq 1 ?temp0] by auto
  show ?thesis
  proof (cases s)
    case 0
    then show ?thesis using assms by (simp add: buildCDF_def Let_def del: upt_Suc)
  next
    case (Suc k)
    have k: "k < ALPHABET_SIZE" using assms Suc by simp
    have "Suc k - w' = 0" using w'(1) k by simp
    then have "scan_loop 1 ?temp0 ! k = (\<Sum>t = 0..<Suc k. freq ! t)"
      using w'(2) k by (simp add: window_sums_def del: sum.op_ivl_Suc)
    then show ?thesis
      using assms Suc by (simp add: buildCDF_def Let_def del: upt_Suc sum.op_ivl_Suc)
  qed
qed

lemma sum_counts:
  fixes xs :: "byte list"
  shows "(\<Sum>t = 0..<ALPHABET_SIZE. count_list xs (word_of_nat t)) = length xs"
proof (induction xs)
  case Nil
  show ?case by simp
next
  case (Cons x xs)
  have one: "(\<Sum>t = 0..<ALPHABET_SIZE. if x = word_of_nat t then 1 else 0) = (1 :: nat)"
  proof -
    have "(\<Sum>t = 0..<ALPHABET_SIZE. if x = word_of_nat t then 1 else (0 :: nat))
            = (\<Sum>t = 0..<ALPHABET_SIZE. if t = unat x then 1 else 0)"
    proof (rule sum.cong [OF refl])
      fix t assume "t \<in> {0..<ALPHABET_SIZE}"
      then have "(unat x = t) = (x = word_of_nat t)" by (intro byte_value) simp
      then show "(if x = word_of_nat t then 1 else (0 :: nat)) = (if t = unat x then 1 else 0)"
        by auto
    qed
    also have "\<dots> = 1"
      using unat_byte_less [of x] by simp
    finally show ?thesis .
  qed
  have "(\<Sum>t = 0..<ALPHABET_SIZE. count_list (x # xs) (word_of_nat t))
          = (\<Sum>t = 0..<ALPHABET_SIZE. count_list xs (word_of_nat t)
                + (if x = word_of_nat t then 1 else 0))"
    by (rule sum.cong [OF refl]) simp
  also have "\<dots> = length xs + 1"
    unfolding sum.distrib Cons one by (rule refl)
  finally show ?case by simp
qed

lemma unat_sum_upt:
  fixes f :: "nat \<Rightarrow> 32 word"
  assumes "(\<Sum>t = 0..<s. unat (f t)) < 2 ^ 32"
  shows "unat (\<Sum>t = 0..<s. f t) = (\<Sum>t = 0..<s. unat (f t))"
  using assms
proof (induction s)
  case 0
  show ?case by simp
next
  case (Suc s)
  have lt: "(\<Sum>t = 0..<s. unat (f t)) + unat (f s) < 2 ^ 32"
    using Suc.prems by simp
  then have IH: "unat (\<Sum>t = 0..<s. f t) = (\<Sum>t = 0..<s. unat (f t))"
    using Suc.IH by simp
  have "unat ((\<Sum>t = 0..<s. f t) + f s) = unat (\<Sum>t = 0..<s. f t) + unat (f s)"
    by (rule unat_add_lem [THEN iffD1]) (use lt IH in simp)
  then show ?case using IH by simp
qed

lemma prefix_le:
  fixes g :: "nat \<Rightarrow> nat"
  assumes "s \<le> t"
  shows "(\<Sum>k = 0..<s. g k) \<le> (\<Sum>k = 0..<t. g k)"
  by (rule sum_mono2) (use assms in auto)

text \<open>
  Claim C4, amended. With the frequency table left by the counting stage on an input of fewer than
  \<open>2^32 - 255\<close> bytes, the table built by \<^verbatim>\<open>buildCDF\<close> is the exclusive prefix sum:
  entry 0 is 0, entry \<open>s\<close> is the sum of the counts of all symbols below \<open>s\<close>, the table
  never decreases, and \<^verbatim>\<open>total\<close>, the upper bound of the slice of symbol 255, is the input
  length, which is also the sum of all 256 counts.
\<close>

theorem buildCDF_prefix_sums:
  fixes input :: "byte list"
  assumes "length input < 2 ^ 32 - 255"
    and "merge_order (nat (freqBlocks input)) merges"
    and "count_stage input merges = Some freq"
  shows "buildCDF freq ! 0 = 0
    \<and> (\<forall>s<ALPHABET_SIZE. unat (buildCDF freq ! s) = (\<Sum>t = 0..<s. unat (freq ! t)))
    \<and> (\<forall>s t. s \<le> t \<and> t < ALPHABET_SIZE \<longrightarrow> buildCDF freq ! s \<le> buildCDF freq ! t)
    \<and> unat (total_of input) = length input
    \<and> (\<Sum>t = 0..<ALPHABET_SIZE. unat (freq ! t)) = length input"
proof -
  have n: "length input < 2 ^ 32" using assms(1) by simp
  have fr: "\<And>s. s < ALPHABET_SIZE \<Longrightarrow> unat (freq ! s) = count_list input (word_of_nat s)"
    using count_stage_words [OF assms(1,2)] assms(3) by (auto simp: unat_count [OF n])
  have all: "(\<Sum>t = 0..<ALPHABET_SIZE. unat (freq ! t)) = length input"
  proof -
    have "(\<Sum>t = 0..<ALPHABET_SIZE. unat (freq ! t))
            = (\<Sum>t = 0..<ALPHABET_SIZE. count_list input (word_of_nat t))"
      by (rule sum.cong [OF refl]) (simp add: fr)
    then show ?thesis by (simp add: sum_counts)
  qed
  have bound: "(\<Sum>t = 0..<s. unat (freq ! t)) < 2 ^ 32" if "s \<le> ALPHABET_SIZE" for s
    using prefix_le [OF that, of "\<lambda>t. unat (freq ! t)"] all n by simp
  have val: "unat (buildCDF freq ! s) = (\<Sum>t = 0..<s. unat (freq ! t))"
    if s: "s < ALPHABET_SIZE" for s
  proof -
    have "s \<le> ALPHABET_SIZE" using s by simp
    then show ?thesis
      unfolding buildCDF_nth [OF s] by (intro unat_sum_upt bound)
  qed
  have mono: "buildCDF freq ! s \<le> buildCDF freq ! t" if "s \<le> t" "t < ALPHABET_SIZE" for s t
  proof -
    have "s < ALPHABET_SIZE" using that by simp
    then show ?thesis
      unfolding word_le_nat_alt using that val prefix_le [OF that(1), of "\<lambda>k. unat (freq ! k)"]
      by simp
  qed
  have z: "buildCDF freq ! 0 = 0"
    using buildCDF_nth [of 0 freq] by (simp add: ALPHABET_SIZE_def)
  have tot: "unat (total_of input) = length input"
    using n by (simp add: total_of_def unat_of_nat)
  show ?thesis
    using z val mono tot all by blast
qed

theorem buildCDF_prefix_sums_witness:
  "buildCDF (the (count_stage (replicate 4096 0) (List.product [0..<16] [0..<ALPHABET_SIZE]))) ! 0 = 0
   \<and> unat (total_of (replicate 4096 0)) = length (replicate 4096 (0 :: byte))"
proof -
  have l: "length (replicate 4096 (0 :: byte)) < 2 ^ 32 - 255" by simp
  have m: "merge_order (nat (freqBlocks (replicate 4096 0)))
             (List.product [0..<16] [0..<ALPHABET_SIZE])"
    using merge_order_product [of 16] by (simp add: freqBlocks_4096)
  have s: "count_stage (replicate 4096 0) (List.product [0..<16] [0..<ALPHABET_SIZE])
             = Some (the (count_stage (replicate 4096 0) (List.product [0..<16] [0..<ALPHABET_SIZE])))"
    using count_stage_words [OF l m] by auto
  show ?thesis
    using buildCDF_prefix_sums [OF l m s] by blast
qed


text \<open>
  Claim C5, as stated for every input, fails for large inputs. On an input of
  \<open>2^32 - 255\<close> bytes the grid has \<open>2^24\<close> blocks and the stride
  \<^verbatim>\<open>blockDim.x * gridDim.x\<close> wraps to 0 in \<^verbatim>\<open>unsigned int\<close>: the counting loop of a thread
  never advances and the stage does not return, whatever the merge order.
\<close>

theorem count_stage_diverges:
  "merge_order (nat (freqBlocks (replicate 4294967041 0)))
     (List.product [0..<16777216] [0..<ALPHABET_SIZE])
   \<and> count_stage (replicate 4294967041 0) (List.product [0..<16777216] [0..<ALPHABET_SIZE]) = None"
proof -
  have fb: "freqBlocks (replicate 4294967041 0) = 16777216"
    by (simp add: freqBlocks_def BLOCK_SIZE_def to_int32_def)
  have m: "merge_order (nat (freqBlocks (replicate 4294967041 0)))
     (List.product [0..<16777216] [0..<ALPHABET_SIZE])"
    using merge_order_product [of 16777216] by (simp add: fb)
  have "count_stage (replicate 4294967041 0) (List.product [0..<16777216] [0..<ALPHABET_SIZE]) = None"
    by (simp add: count_stage_def fb countFrequencies_def BLOCK_SIZE_def)
  with m show ?thesis by simp
qed

text \<open>
  Claim C4, as stated for every non-empty input, fails for large inputs: \<^verbatim>\<open>total\<close> is an
  \<^verbatim>\<open>unsigned int\<close>, and for an input of \<open>2^32\<close> bytes it is 0, not the input length.
\<close>

theorem total_of_truncates:
  "unat (total_of (replicate 4294967296 0)) \<noteq> length (replicate 4294967296 (0 :: byte))"
  by (simp add: total_of_def)


section \<open>Properties of the chunk encoder\<close>

lemma ceil_div_Suc:
  fixes n c :: nat
  assumes "n mod c \<noteq> 0" and c: "0 < c"
  shows "(n + c - 1) div c = Suc (n div c)"
proof -
  define q where "q = n div c"
  define r where "r = n mod c"
  have n: "n = c * q + r" by (simp add: q_def r_def)
  have r: "r < c" using c by (simp add: r_def)
  have r1: "1 \<le> r" using assms(1) by (simp add: r_def)
  have a: "c * Suc q \<le> n + c - 1" unfolding n using r1 by simp
  have b: "n + c - 1 < c * Suc (Suc q)" unfolding n using r c by simp
  show ?thesis
    using div_nat_eqI [OF a b] by (simp add: q_def)
qed

lemma last_chunk_bounds:
  fixes n c :: nat
  assumes "n mod c \<noteq> 0" and c: "0 < c"
  shows "((n + c - 1) div c - 1) * c \<le> n" and "n < ((n + c - 1) div c) * c"
    and "0 < (n + c - 1) div c"
proof -
  have e: "(n + c - 1) div c = Suc (n div c)" by (rule ceil_div_Suc [OF assms])
  have n: "n = (n div c) * c + n mod c" by simp
  show "((n + c - 1) div c - 1) * c \<le> n"
    unfolding e using n by (metis diff_Suc_1 le_add1)
  have "n < (n div c) * c + c" using n c by (metis add_less_cancel_left mod_less_divisor)
  then show "n < ((n + c - 1) div c) * c" unfolding e by simp
  show "0 < (n + c - 1) div c" unfolding e by simp
qed

lemma chunk_end_eq:
  "blockId < nc \<Longrightarrow> chunk_end blockId cs nc = chunk_start blockId cs + cs"
proof -
  assume "blockId < nc"
  then have "Suc blockId \<le> nc" by simp
  then have "Suc blockId * cs \<le> nc * cs"
    by (rule mult_le_mono1)
  then show ?thesis
    by (simp add: chunk_end_def chunk_start_def)
qed

lemma encode_loop_past_end:
  "\<exists>i\<in>set is. length input \<le> i \<Longrightarrow> \<exists>f. encode_loop input cdf total' base is s = Inl f"
proof (induction "is" arbitrary: s)
  case Nil
  then show ?case by simp
next
  case (Cons i "is")
  show ?case
  proof (cases "encode_symbol input cdf total' base i s")
    case (Inl f)
    then show ?thesis by simp
  next
    case (Inr s')
    then have "i < length input"
      by (auto simp: encode_symbol_def split: if_splits)
    then have "\<exists>i\<in>set is. length input \<le> i"
      using Cons.prems by auto
    then show ?thesis
      using Cons.IH [of s'] Inr by simp
  qed
qed

lemma upt_4096: "[0..<4096] = 0 # 1 # [2..<4096]"
proof -
  have "[0..<4096::nat] = 0 # [Suc 0..<4096]" by (rule upt_conv_Cons) simp
  moreover have "[Suc 0..<4096::nat] = Suc 0 # [Suc (Suc 0)..<4096]" by (rule upt_conv_Cons) simp
  ultimately show ?thesis by (simp add: numeral_2_eq_2)
qed

text \<open>
  Claim C6 (failing on the code). The chunk end is
  \<^verbatim>\<open>min(start + chunkSize, numChunks * chunkSize)\<close>, which is always
  \<^verbatim>\<open>start + chunkSize\<close>: the true input length never enters the bound. For a 1-byte input
  (frequency table \<open>1, 0, \<dots>\<close>, hence CDF \<open>0, 1, \<dots>, 1\<close> and \<^verbatim>\<open>total = 1\<close>) the only
  chunk runs up to index 4096, and after encoding the byte at index 0 the loop reads
  \<^verbatim>\<open>input[1]\<close>, past the end of the buffer.
\<close>

theorem encodeBlocks_reads_past_end:
  "chunk_end 0 chunkSize (numChunks [0]) = 4096
   \<and> encodeBlocks [0] (0 # replicate 255 1) 0 = Inl (OutOfBounds 1)"
  by (simp add: encodeBlocks_def encodeBlocks_block_def chunk_start_def chunk_end_def chunkSize_def
     numChunks_def total_of_def upt_4096 encode_symbol_def MAX_RANGE_def renormalize.simps Let_def)

text \<open>
  The same happens for every input whose length is not a multiple of the chunk size: the
  last chunk never completes.
\<close>

lemma encodeBlocks_last_chunk_faults:
  assumes "length input mod chunkSize \<noteq> 0"
  shows "\<exists>f. encodeBlocks input cdf (numChunks input - 1) = Inl f"
proof -
  let ?n = "length input" and ?c = "numChunks input"
  have c: "chunkSize = 4096" by (simp add: chunkSize_def)
  have n0: "0 < ?n" using assms by (cases "?n = 0") simp_all
  have c0: "0 < chunkSize" by (simp add: c)
  have cpos: "0 < ?c"
    unfolding numChunks_def by (rule last_chunk_bounds(3) [OF assms c0])
  have lo: "(?c - 1) * chunkSize \<le> ?n"
    unfolding numChunks_def by (rule last_chunk_bounds(1) [OF assms c0])
  have hi: "?n < ?c * chunkSize"
    unfolding numChunks_def by (rule last_chunk_bounds(2) [OF assms c0])
  have e: "chunk_end (?c - 1) chunkSize ?c = chunk_start (?c - 1) chunkSize + chunkSize"
    using cpos by (intro chunk_end_eq) simp
  have "chunk_start (?c - 1) chunkSize + chunkSize = ?c * chunkSize"
    using cpos by (cases ?c) (simp_all add: chunk_start_def)
  then have "?n \<in> set [chunk_start (?c - 1) chunkSize ..< chunk_end (?c - 1) chunkSize ?c]"
    using lo hi e by (simp add: chunk_start_def)
  then have m: "\<exists>i\<in>set [chunk_start (?c - 1) chunkSize ..< chunk_end (?c - 1) chunkSize ?c].
               ?n \<le> i"
    by blast
  obtain f where "encode_loop input cdf (total_of input)
        ((?c - 1) * (chunkSize div 4 + 64))
        [chunk_start (?c - 1) chunkSize ..< chunk_end (?c - 1) chunkSize ?c]
        \<lparr>low = 0, range' = MAX_RANGE, outputWord = 0, bitsInWord = 0,
                      outputIdx = 0, written = []\<rparr> = Inl f"
    using encode_loop_past_end [OF m] by blast
  then show ?thesis
    using cpos by (simp add: encodeBlocks_def encodeBlocks_block_def Let_def)
qed


section \<open>Properties of the codec drivers\<close>

lemma memcpy_below: "off + n \<le> capacity \<Longrightarrow> list_all (\<lambda>w. fst w < capacity) (memcpy off src n)"
  by (simp add: memcpy_def list_all_iff)

lemma lz77Compress_output_safe:
  "within_capacity (lz77Compress_output numTokens d_output capacity) capacity"
  by (simp add: within_capacity_def lz77Compress_output_def Let_def memcpy_below)

lemma arithmeticCompress_output_safe:
  "within_capacity (arithmeticCompress_output h_outputLengths d_output capacity) capacity"
  by (simp add: within_capacity_def arithmeticCompress_output_def Let_def memcpy_below)

lemma e8LatticeCompress_output_safe:
  "within_capacity
     (e8LatticeCompress_output inputSize d_rootIndices d_encodedResiduals capacity) capacity"
proof (cases "e8_outputBytes inputSize \<le> capacity")
  case True
  then have "8 + e8_numBlocks inputSize + e8_numBlocks inputSize * E8_DIM * 2 \<le> capacity"
    by (simp add: e8_outputBytes_def)
  then show ?thesis
    using True
    by (simp add: within_capacity_def e8LatticeCompress_output_def Let_def memcpy_below)
next
  case False
  then show ?thesis
    by (simp add: within_capacity_def e8LatticeCompress_output_def Let_def)
qed

text \<open>
  Claim C7. Each of the three compress entry points stores nothing at or past the
  capacity of the destination, whatever the capacity; and when the capacity is smaller
  than the computed compressed size it stores nothing at all and leaves the computed size
  in \<^verbatim>\<open>*outputSize\<close>. This covers a destination one byte too small.
\<close>

theorem compress_never_overruns:
  "within_capacity (lz77Compress_output numTokens d_output capacity) capacity
   \<and> (capacity < unat numTokens * 4 \<longrightarrow>
        writes (lz77Compress_output numTokens d_output capacity) = []
        \<and> outputSize (lz77Compress_output numTokens d_output capacity) = unat numTokens * 4)
   \<and> within_capacity (arithmeticCompress_output h_outputLengths d_out capacity) capacity
   \<and> (capacity < fold (\<lambda>l acc. acc + unat l) h_outputLengths 0 \<longrightarrow>
        writes (arithmeticCompress_output h_outputLengths d_out capacity) = []
        \<and> outputSize (arithmeticCompress_output h_outputLengths d_out capacity)
            = fold (\<lambda>l acc. acc + unat l) h_outputLengths 0)
   \<and> within_capacity
        (e8LatticeCompress_output inputSize d_rootIndices d_encodedResiduals capacity) capacity
   \<and> (capacity < e8_outputBytes inputSize \<longrightarrow>
        writes (e8LatticeCompress_output inputSize d_rootIndices d_encodedResiduals capacity) = []
        \<and> outputSize (e8LatticeCompress_output inputSize d_rootIndices d_encodedResiduals capacity)
            = e8_outputBytes inputSize)"
proof (intro conjI)
  show "within_capacity (lz77Compress_output numTokens d_output capacity) capacity"
    by (rule lz77Compress_output_safe)
  show "within_capacity (arithmeticCompress_output h_outputLengths d_out capacity) capacity"
    by (rule arithmeticCompress_output_safe)
  show "within_capacity
        (e8LatticeCompress_output inputSize d_rootIndices d_encodedResiduals capacity) capacity"
    by (rule e8LatticeCompress_output_safe)
  show "capacity < unat numTokens * 4 \<longrightarrow>
        writes (lz77Compress_output numTokens d_output capacity) = []
        \<and> outputSize (lz77Compress_output numTokens d_output capacity) = unat numTokens * 4"
    by (simp add: lz77Compress_output_def Let_def)
  show "capacity < fold (\<lambda>l acc. acc + unat l) h_outputLengths 0 \<longrightarrow>
        writes (arithmeticCompress_output h_outputLengths d_out capacity) = []
        \<and> outputSize (arithmeticCompress_output h_outputLengths d_out capacity)
            = fold (\<lambda>l acc. acc + unat l) h_outputLengths 0"
    by (simp add: arithmeticCompress_output_def Let_def)
  show "capacity < e8_outputBytes inputSize \<longrightarrow>
        writes (e8LatticeCompress_output inputSize d_rootIndices d_encodedResiduals capacity) = []
        \<and> outputSize (e8LatticeCompress_output inputSize d_rootIndices d_encodedResiduals capacity)
            = e8_outputBytes inputSize"
    by (simp add: e8LatticeCompress_output_def Let_def)
qed

theorem compress_never_overruns_witness:
  "writes (lz77Compress_output 2 (\<lambda>k. 0) 7) = []
   \<and> outputSize (lz77Compress_output 2 (\<lambda>k. 0) 7) = 8
   \<and> writes (arithmeticCompress_output [4, 8] (\<lambda>k. 0) 11) = []
   \<and> outputSize (arithmeticCompress_output [4, 8] (\<lambda>k. 0) 11) = 12
   \<and> writes (e8LatticeCompress_output 64 (\<lambda>k. 0) (\<lambda>k. 0) 24) = []
   \<and> outputSize (e8LatticeCompress_output 64 (\<lambda>k. 0) (\<lambda>k. 0) 24) = 25"
proof -
  have e: "e8_outputBytes 64 = 25"
    by (simp add: e8_outputBytes_def e8_numBlocks_def BLOCK_BYTES_def E8_DIM_def)
  show ?thesis
    using compress_never_overruns [of 2 "\<lambda>k. 0" 7 "[]" "\<lambda>k. 0" 0 "\<lambda>k. 0" "\<lambda>k. 0"]
          compress_never_overruns [of 0 "\<lambda>k. 0" 11 "[4, 8]" "\<lambda>k. 0" 0 "\<lambda>k. 0" "\<lambda>k. 0"]
          compress_never_overruns [of 0 "\<lambda>k. 0" 24 "[]" "\<lambda>k. 0" 64 "\<lambda>k. 0" "\<lambda>k. 0"]
    by (simp add: e)
qed


end
